theory Spec2Isabelle
  imports Complex_Main "HOL-Library.Log_Nat" "HOL-Library.Code_Target_Nat"
begin

section \<open>Subtitle serializers of pages/Transcribe.py\<close>

text \<open>
  The transcription page turns the segments of a recognition result into SubRip (SRT),
  WebVTT and tab-separated text.  A segment is a Python dict read at the three keys
  \<^verbatim>\<open>'start'\<close>, \<^verbatim>\<open>'end'\<close> and \<^verbatim>\<open>'text'\<close>; a key that is
  absent from the dict is modelled by \<open>None\<close>.  The recognition engine stores seconds as
  Python floats and text as a string.
\<close>

subsection \<open>Characters, exceptions, segments\<close>

abbreviation TAB :: char where "TAB \<equiv> CHR 0x09"
abbreviation LF :: char where "LF \<equiv> CHR 0x0A"
abbreviation CR :: char where "CR \<equiv> CHR 0x0D"
abbreviation QUOTE :: char where "QUOTE \<equiv> CHR 0x22"

text \<open>
  Exceptions.  \<open>KeyError k\<close> is what subscripting a dict raises at a missing key
  \<open>k\<close>; \<open>ValueError\<close> and \<open>OverflowError\<close> are what \<^verbatim>\<open>int(x)\<close> raises for a
  float that is not a number and for an infinite float.  \<open>MalformedResult\<close> is the
  error the specification names; no statement of the source raises it, it is listed so that
  statements can tell it apart from the others.
\<close>

datatype error = KeyError string | ValueError | OverflowError | MalformedResult string

text \<open>
  A Python float: a finite value, one of the two infinities, or not a number.  A finite
  float is given by its exact value.  The two zeros are not told apart (no result below
  depends on the sign of a zero).
\<close>

datatype pyfloat = Finite real | PosInf | NegInf | NaN

record segment =
  seg_start :: "pyfloat option"
  seg_end :: "pyfloat option"
  seg_text :: "string option"

text \<open>\<^verbatim>\<open>d[key]\<close>: the value, or \<open>KeyError key\<close>.\<close>

definition getitem :: "'a option \<Rightarrow> string \<Rightarrow> error + 'a" where
  "getitem field key = (case field of None \<Rightarrow> Inl (KeyError key) | Some v \<Rightarrow> Inr v)"

subsection \<open>Float arithmetic\<close>

text \<open>
  A result of float arithmetic is the exact result rounded to the nearest float, ties to
  the float with an even significand.  A float has a significand of 53 bits: when
  \<open>2 ^ e \<le> \<bar>x\<bar> < 2 ^ (e + 1)\<close>, the floats around \<open>x\<close> are the multiples of
  \<open>2 ^ (e - 52)\<close>.  The results rounded in \<open>format_time\<close> neither overflow nor fall
  into the subnormal range, so \<open>rnd\<close> has no case for either.
\<close>

definition pow2 :: "int \<Rightarrow> real" where
  "pow2 k = (if 0 \<le> k then 2 ^ nat k else 1 / 2 ^ nat (- k))"

definition exponent :: "real \<Rightarrow> int" where
  "exponent x = (if 1 \<le> x then bitlen \<lfloor>x\<rfloor> - 1 else - bitlen (\<lceil>1 / x\<rceil> - 1))"

definition round_half_even :: "real \<Rightarrow> int" where
  "round_half_even y =
     (let f = \<lfloor>y\<rfloor>; d = y - of_int f
      in if d < 1 / 2 then f else if 1 / 2 < d then f + 1 else if even f then f else f + 1)"

definition rnd :: "real \<Rightarrow> real" where
  "rnd x =
     (if x = 0 then 0
      else let u = pow2 (exponent \<bar>x\<bar> - 52) in u * of_int (round_half_even (x / u)))"

text \<open>Truncation towards zero, and the C function \<^verbatim>\<open>fmod\<close>, whose result is exact.\<close>

definition py_trunc :: "real \<Rightarrow> int" where
  "py_trunc x = (if 0 \<le> x then \<lfloor>x\<rfloor> else \<lceil>x\<rceil>)"

definition c_fmod :: "real \<Rightarrow> real \<Rightarrow> real" where
  "c_fmod x y = x - y * of_int (py_trunc (x / y))"

text \<open>
  \<^verbatim>\<open>x // y\<close> and \<^verbatim>\<open>x % y\<close> on finite floats, as the interpreter computes them (the
  divisor is never zero here):
  \<^verbatim>\<open>
  mod = fmod(vx, wx);
  div = (vx - mod) / wx;
  if (mod) { if ((wx < 0) != (mod < 0)) { mod += wx; div -= 1.0; } }
  else mod = copysign(0.0, wx);
  if (div) { floordiv = floor(div); if (div - floordiv > 0.5) floordiv += 1.0; }
  else floordiv = copysign(0.0, vx / wx);
  \<close>
  \<open>snap\<close> is the last two lines, which bring the quotient to a whole number.
\<close>

definition snap :: "real \<Rightarrow> real" where
  "snap d =
     (if d \<noteq> 0
      then (let f = of_int \<lfloor>d\<rfloor> in if 1 / 2 < rnd (d - f) then rnd (f + 1) else f)
      else 0)"

definition float_div_mod :: "real \<Rightarrow> real \<Rightarrow> real \<times> real" where
  "float_div_mod vx wx =
     (let mod0 = c_fmod vx wx;
          div0 = rnd (rnd (vx - mod0) / wx);
          adjust = (mod0 \<noteq> 0 \<and> ((wx < 0) \<noteq> (mod0 < 0)));
          mod1 = (if adjust then rnd (mod0 + wx) else mod0);
          div1 = (if adjust then rnd (div0 - 1) else div0)
      in (snap div1, mod1))"

definition float_rem :: "real \<Rightarrow> real \<Rightarrow> real" where
  "float_rem vx wx =
     (let mod0 = c_fmod vx wx
      in if mod0 \<noteq> 0 \<and> ((wx < 0) \<noteq> (mod0 < 0)) then rnd (mod0 + wx) else mod0)"

text \<open>
  On a float that is not finite, \<^verbatim>\<open>fmod\<close> gives not-a-number and so do \<^verbatim>\<open>//\<close> and
  \<^verbatim>\<open>%\<close>.  \<^verbatim>\<open>int(x)\<close> truncates a finite float towards zero and raises for the
  others.
\<close>

fun py_floordiv :: "pyfloat \<Rightarrow> real \<Rightarrow> pyfloat" where
  "py_floordiv (Finite vx) wx = Finite (fst (float_div_mod vx wx))"
| "py_floordiv v wx = NaN"

fun py_mod :: "pyfloat \<Rightarrow> real \<Rightarrow> pyfloat" where
  "py_mod (Finite vx) wx = Finite (float_rem vx wx)"
| "py_mod v wx = NaN"

fun py_int :: "pyfloat \<Rightarrow> error + int" where
  "py_int (Finite x) = Inr (py_trunc x)"
| "py_int NaN = Inl ValueError"
| "py_int PosInf = Inl OverflowError"
| "py_int NegInf = Inl OverflowError"

subsection \<open>Formatting integers\<close>

text \<open>\<^verbatim>\<open>str(n)\<close> of a non-negative integer: its decimal digits.\<close>

definition digit_char :: "nat \<Rightarrow> char" where
  "digit_char d = ''0123456789'' ! d"

fun str_nat :: "nat \<Rightarrow> string" where
  "str_nat n = (if n < 10 then [digit_char n] else str_nat (n div 10) @ [digit_char (n mod 10)])"

declare str_nat.simps [simp del]

text \<open>The format specification \<^verbatim>\<open>02d\<close>: a minus sign for a negative number, then the
  digits, filled with zeros after the sign up to a width of two characters.\<close>

definition fmt_02d :: "int \<Rightarrow> string" where
  "fmt_02d n =
     (let sign = (if n < 0 then ''-'' else '''');
          ds = str_nat (nat \<bar>n\<bar>)
      in sign @ replicate (2 - length sign - length ds) CHR ''0'' @ ds)"

subsection \<open>format_time\<close>

text \<open>
  \<^verbatim>\<open>
  def format_time(seconds):
      hours = int(seconds // 3600)
      minutes = int((seconds % 3600) // 60)
      seconds = int(seconds % 60)
      milliseconds = int((seconds % 1) * 1000)
      return f"{hours:02d}:{minutes:02d}:{seconds:02d}"
  \<close>
  The fourth line reads the \<open>seconds\<close> that the third line has just replaced by an
  integer, and its result is not used.  Each \<^verbatim>\<open>int(...)\<close> of the first three lines
  can raise.
\<close>

definition format_time :: "pyfloat \<Rightarrow> error + string" where
  "format_time seconds =
     (case py_int (py_floordiv seconds 3600) of Inl e \<Rightarrow> Inl e | Inr hours \<Rightarrow>
      (case py_int (py_floordiv (py_mod seconds 3600) 60) of Inl e \<Rightarrow> Inl e | Inr minutes \<Rightarrow>
       (case py_int (py_mod seconds 60) of Inl e \<Rightarrow> Inl e | Inr seconds' \<Rightarrow>
          let milliseconds = (seconds' mod 1) * 1000
          in Inr (fmt_02d hours @ '':'' @ fmt_02d minutes @ '':'' @ fmt_02d seconds'))))"

subsection \<open>create_srt_content\<close>

text \<open>The loop over \<^verbatim>\<open>enumerate(segments, 1)\<close>, with the counter, the remaining
  segments and the string built so far.  The statements of the body run in the order of the
  source: the start is looked up and formatted, then the end, then the text is looked
  up.\<close>

fun srt_loop :: "nat \<Rightarrow> segment list \<Rightarrow> string \<Rightarrow> error + string" where
  "srt_loop i [] srt_content = Inr srt_content"
| "srt_loop i (seg # rest) srt_content =
     (case getitem (seg_start seg) ''start'' of Inl e \<Rightarrow> Inl e | Inr st \<Rightarrow>
      (case format_time st of Inl e \<Rightarrow> Inl e | Inr t1 \<Rightarrow>
       let start = t1 @ '',000'' in
       (case getitem (seg_end seg) ''end'' of Inl e \<Rightarrow> Inl e | Inr en \<Rightarrow>
        (case format_time en of Inl e \<Rightarrow> Inl e | Inr t2 \<Rightarrow>
         let end' = t2 @ '',000'' in
         (case getitem (seg_text seg) ''text'' of Inl e \<Rightarrow> Inl e | Inr tx \<Rightarrow>
            srt_loop (i + 1) rest
              (srt_content @ str_nat i @ [LF] @ start @ '' --> '' @ end' @ [LF] @ tx @ [LF, LF]))))))"

definition create_srt_content :: "segment list \<Rightarrow> error + string" where
  "create_srt_content segments = srt_loop 1 segments ''''"

subsection \<open>create_vtt_content\<close>

fun vtt_loop :: "nat \<Rightarrow> segment list \<Rightarrow> string \<Rightarrow> error + string" where
  "vtt_loop i [] vtt_content = Inr vtt_content"
| "vtt_loop i (seg # rest) vtt_content =
     (case getitem (seg_start seg) ''start'' of Inl e \<Rightarrow> Inl e | Inr st \<Rightarrow>
      (case format_time st of Inl e \<Rightarrow> Inl e | Inr start \<Rightarrow>
       (case getitem (seg_end seg) ''end'' of Inl e \<Rightarrow> Inl e | Inr en \<Rightarrow>
        (case format_time en of Inl e \<Rightarrow> Inl e | Inr end' \<Rightarrow>
         (case getitem (seg_text seg) ''text'' of Inl e \<Rightarrow> Inl e | Inr tx \<Rightarrow>
            vtt_loop (i + 1) rest
              (vtt_content @ start @ ''.000 --> '' @ end' @ ''.000'' @ [LF] @ tx @ [LF, LF]))))))"

definition create_vtt_content :: "segment list \<Rightarrow> error + string" where
  "create_vtt_content segments = vtt_loop 1 segments (''WEBVTT'' @ [LF, LF])"

subsection \<open>create_tsv_content\<close>

text \<open>
  \<^verbatim>\<open>csv.writer(output, delimiter='\t')\<close> has the defaults of the \<open>excel\<close> dialect for
  everything else: quote character \<^verbatim>\<open>"\<close>, doubled when it occurs in a field, minimal
  quoting, line terminator CR LF.  A field is quoted when it holds the delimiter, the quote
  character or a character of the line terminator.  A record that would be empty (a single
  empty field) is written as a pair of quotes.
\<close>

definition csv_special :: "char \<Rightarrow> bool" where
  "csv_special c \<longleftrightarrow> c = TAB \<or> c = QUOTE \<or> c = CR \<or> c = LF"

definition join_append_data :: "string \<Rightarrow> string" where
  "join_append_data field = concat (map (\<lambda>c. if c = QUOTE then [QUOTE, QUOTE] else [c]) field)"

definition join_append :: "string \<Rightarrow> string" where
  "join_append field =
     (if list_ex csv_special field then [QUOTE] @ join_append_data field @ [QUOTE]
      else field)"

fun join_fields :: "string list \<Rightarrow> string" where
  "join_fields [] = ''''"
| "join_fields [f] = join_append f"
| "join_fields (f # g # fs) = join_append f @ [TAB] @ join_fields (g # fs)"

text \<open>\<open>writerow\<close> appends the record and the line terminator to the \<open>StringIO\<close>
  buffer.\<close>

definition writerow :: "string \<Rightarrow> string list \<Rightarrow> string" where
  "writerow output row =
     (let joined = join_fields row;
          rec_text = (if row \<noteq> [] \<and> joined = [] then [QUOTE, QUOTE] else joined)
      in output @ rec_text @ [CR, LF])"

text \<open>The elements of the row are evaluated from left to right.\<close>

fun tsv_loop :: "segment list \<Rightarrow> string \<Rightarrow> error + string" where
  "tsv_loop [] output = Inr output"
| "tsv_loop (seg # rest) output =
     (case getitem (seg_start seg) ''start'' of Inl e \<Rightarrow> Inl e | Inr st \<Rightarrow>
      (case format_time st of Inl e \<Rightarrow> Inl e | Inr start \<Rightarrow>
       (case getitem (seg_end seg) ''end'' of Inl e \<Rightarrow> Inl e | Inr en \<Rightarrow>
        (case format_time en of Inl e \<Rightarrow> Inl e | Inr end' \<Rightarrow>
         (case getitem (seg_text seg) ''text'' of Inl e \<Rightarrow> Inl e | Inr tx \<Rightarrow>
            tsv_loop rest (writerow output [start, end', tx]))))))"

definition create_tsv_content :: "segment list \<Rightarrow> error + string" where
  "create_tsv_content segments = tsv_loop segments (writerow '''' [''Start'', ''End'', ''Text''])"

subsection \<open>The format dispatch of transcribe_page\<close>

text \<open>
  After the transcription, \<^verbatim>\<open>transcribe_page\<close> first shows \<^verbatim>\<open>result["text"]\<close> in
  the preview tab, and then selects the content of each requested format in an
  \<^verbatim>\<open>if\<close>/\<^verbatim>\<open>elif\<close> chain over the format tag: \<^verbatim>\<open>result["text"]\<close> for
  \<open>txt\<close>, and a serializer applied to \<^verbatim>\<open>result["segments"]\<close> for \<open>srt\<close>,
  \<open>vtt\<close> and \<open>tsv\<close>.  \<open>format_content\<close> is the content of one requested format,
  with the read of the preview before it.  The \<open>json\<close> branch (\<^verbatim>\<open>json.dumps\<close>) is not
  modelled.  A recognition result is read at the keys \<^verbatim>\<open>'text'\<close> and
  \<^verbatim>\<open>'segments'\<close>.
\<close>

datatype format_type = Txt | Srt | Vtt | Tsv

record transcription =
  res_text :: "string option"
  res_segments :: "segment list option"

definition format_content :: "format_type \<Rightarrow> transcription \<Rightarrow> error + string" where
  "format_content format_type result =
     (case getitem (res_text result) ''text'' of Inl e \<Rightarrow> Inl e | Inr preview \<Rightarrow>
       (case format_type of
          Txt \<Rightarrow> getitem (res_text result) ''text''
        | Srt \<Rightarrow> (case getitem (res_segments result) ''segments'' of Inl e \<Rightarrow> Inl e
                   | Inr segs \<Rightarrow> create_srt_content segs)
        | Vtt \<Rightarrow> (case getitem (res_segments result) ''segments'' of Inl e \<Rightarrow> Inl e
                   | Inr segs \<Rightarrow> create_vtt_content segs)
        | Tsv \<Rightarrow> (case getitem (res_segments result) ''segments'' of Inl e \<Rightarrow> Inl e
                   | Inr segs \<Rightarrow> create_tsv_content segs)))"

section \<open>Notions used in the statements\<close>

subsection \<open>Segments with all three keys and finite times, and the blocks of the output\<close>

text \<open>
  A segment is \<open>complete\<close> when the three keys are present.  For a segment that is
  not, \<open>missing_key\<close> is the first absent key in the order in which every serializer
  reads them: start, end, text.  A segment has \<open>finite_times\<close> when the start and the
  end that it has are finite floats.
\<close>

definition complete :: "segment \<Rightarrow> bool" where
  "complete seg \<longleftrightarrow> seg_start seg \<noteq> None \<and> seg_end seg \<noteq> None \<and> seg_text seg \<noteq> None"

definition missing_key :: "segment \<Rightarrow> string" where
  "missing_key seg =
     (if seg_start seg = None then ''start''
      else if seg_end seg = None then ''end'' else ''text'')"

fun is_finite :: "pyfloat \<Rightarrow> bool" where
  "is_finite (Finite x) = True"
| "is_finite v = False"

definition finite_times :: "segment \<Rightarrow> bool" where
  "finite_times seg \<longleftrightarrow>
     (case seg_start seg of None \<Rightarrow> True | Some t \<Rightarrow> is_finite t) \<and>
     (case seg_end seg of None \<Rightarrow> True | Some t \<Rightarrow> is_finite t)"

text \<open>
  The timecode of a time is the string that \<open>format_time\<close> returns for it (and the
  empty string where \<open>format_time\<close> raises).
\<close>

definition timecode :: "pyfloat \<Rightarrow> string" where
  "timecode t = (case format_time t of Inl e \<Rightarrow> [] | Inr str \<Rightarrow> str)"

text \<open>
  The cue block of the SRT grammar for a counter value and a segment: the index line, the
  line of the two timecodes joined by an arrow, the text, a blank line.  The VTT cue is the
  same without the index line and with a full stop before the milliseconds.  The TSV row of
  a segment is the list of its three fields.
\<close>

definition srt_cue :: "nat \<times> segment \<Rightarrow> string" where
  "srt_cue p =
     str_nat (fst p) @ [LF] @
     timecode (the (seg_start (snd p))) @ '',000'' @ '' --> '' @
     timecode (the (seg_end (snd p))) @ '',000'' @ [LF] @
     the (seg_text (snd p)) @ [LF, LF]"

definition vtt_cue :: "segment \<Rightarrow> string" where
  "vtt_cue seg =
     timecode (the (seg_start seg)) @ ''.000'' @ '' --> '' @
     timecode (the (seg_end seg)) @ ''.000'' @ [LF] @
     the (seg_text seg) @ [LF, LF]"

definition tsv_row :: "segment \<Rightarrow> string list" where
  "tsv_row seg = [timecode (the (seg_start seg)), timecode (the (seg_end seg)), the (seg_text seg)]"

text \<open>The value of a finite float, and the remainder of exact floor division.\<close>

fun value_of :: "pyfloat \<Rightarrow> real" where
  "value_of (Finite x) = x"
| "value_of v = 0"

definition floor_mod :: "real \<Rightarrow> real \<Rightarrow> real" where
  "floor_mod x y = x - y * of_int \<lfloor>x / y\<rfloor>"

subsection \<open>Reading decimal numbers and timecodes\<close>

text \<open>
  The value of a string of decimal digits, \<^verbatim>\<open>int(s)\<close> for an optional minus sign
  followed by digits, and the number of seconds that a timecode \<open>H:M:S\<close> denotes.
\<close>

definition is_digit :: "char \<Rightarrow> bool" where
  "is_digit c \<longleftrightarrow> c \<in> set ''0123456789''"

definition digit_val :: "char \<Rightarrow> nat" where
  "digit_val c = of_char c - 48"

definition dec_val :: "string \<Rightarrow> nat" where
  "dec_val ds = foldl (\<lambda>a c. 10 * a + digit_val c) 0 ds"

definition parse_int :: "string \<Rightarrow> int" where
  "parse_int s =
     (case s of [] \<Rightarrow> 0
      | c # cs \<Rightarrow> if c = CHR ''-'' then - int (dec_val cs) else int (dec_val s))"

text \<open>
  \<^verbatim>\<open>s.split(sep)\<close> for a separator of one character.
\<close>

fun split_on :: "char \<Rightarrow> string \<Rightarrow> string list" where
  "split_on sep [] = [[]]"
| "split_on sep (c # cs) =
     (if c = sep then [] # split_on sep cs
      else (case split_on sep cs of [] \<Rightarrow> [[c]] | p # ps \<Rightarrow> (c # p) # ps))"

definition parse_time :: "string \<Rightarrow> int option" where
  "parse_time s =
     (case split_on CHR '':'' s of
        [h, m, sec] \<Rightarrow> Some (parse_int h * 3600 + parse_int m * 60 + parse_int sec)
      | _ \<Rightarrow> None)"

subsection \<open>Reading a TSV artifact by splitting\<close>

text \<open>
  The content is split on line feeds, the empty piece after the last line feed is dropped,
  and each row is split on tabs.  \<open>tsv_rows_lf\<close> does exactly this;
  \<open>tsv_rows\<close> also removes the carriage return that ends each row, so that it accepts
  CR LF as the row terminator.  The rows after the header are turned into tuples of whole
  seconds and text.
\<close>

definition strip_cr :: "string \<Rightarrow> string" where
  "strip_cr row = (if row \<noteq> [] \<and> last row = CR then butlast row else row)"

definition tsv_rows_lf :: "string \<Rightarrow> string list list" where
  "tsv_rows_lf content = map (split_on TAB) (butlast (split_on LF content))"

definition tsv_rows :: "string \<Rightarrow> string list list" where
  "tsv_rows content = map (\<lambda>row. split_on TAB (strip_cr row)) (butlast (split_on LF content))"

definition row_tuple :: "string list \<Rightarrow> (int \<times> int \<times> string) option" where
  "row_tuple row =
     (case row of
        [a, b, c] \<Rightarrow>
          (case parse_time a of None \<Rightarrow> None
           | Some x \<Rightarrow> (case parse_time b of None \<Rightarrow> None | Some y \<Rightarrow> Some (x, y, c)))
      | _ \<Rightarrow> None)"

definition tuples_of :: "string list list \<Rightarrow> (int \<times> int \<times> string) list option" where
  "tuples_of rows = those (map row_tuple (tl rows))"

text \<open>
  A text is plain when it holds no tab, line feed, carriage return or double quote.  A time
  is in \<open>exact_range\<close> when it is a finite float, not negative and below \<open>2 ^ 53\<close>
  seconds.  A plain segment has the three keys, times in that range, and a plain text.
\<close>

definition plain_text :: "string \<Rightarrow> bool" where
  "plain_text s \<longleftrightarrow> list_all (\<lambda>c. c \<noteq> TAB \<and> c \<noteq> LF \<and> c \<noteq> CR \<and> c \<noteq> QUOTE) s"

definition exact_range :: "pyfloat \<Rightarrow> bool" where
  "exact_range t \<longleftrightarrow> is_finite t \<and> 0 \<le> value_of t \<and> value_of t < 2 ^ 53"

definition plain_segment :: "segment \<Rightarrow> bool" where
  "plain_segment seg \<longleftrightarrow> complete seg \<and> exact_range (the (seg_start seg)) \<and>
      exact_range (the (seg_end seg)) \<and> plain_text (the (seg_text seg))"

subsection \<open>Reading a TSV artifact with a quote-aware reader\<close>

text \<open>
  The reader of the \<open>csv\<close> module for the dialect of the writer above, as a state
  machine over the characters of the content.  Outside quotes a tab ends a field and a
  carriage return or a line feed ends the record (a line feed right after a carriage return
  belongs to the same line end); a line with nothing on it gives an empty record.  A field
  that opens with a quote runs to the closing quote, whatever characters it holds, and
  two quotes in a row inside it stand for one.  The arguments are the state, the field read
  so far, the fields of the record read so far and the remaining input.
\<close>

datatype reader_state = StartRecord | AfterCR | StartField | InField | InQuotedField | QuoteInQuotedField

fun reader_run :: "reader_state \<Rightarrow> string \<Rightarrow> string list \<Rightarrow> string \<Rightarrow> string list list" where
  "reader_run st fld row [] = (if st = StartRecord \<or> st = AfterCR then [] else [row @ [fld]])"
| "reader_run StartRecord fld row (c # cs) =
     (if c = LF then [] # reader_run StartRecord [] [] cs
      else if c = CR then [] # reader_run AfterCR [] [] cs
      else if c = QUOTE then reader_run InQuotedField [] [] cs
      else if c = TAB then reader_run StartField [] [[]] cs
      else reader_run InField [c] [] cs)"
| "reader_run AfterCR fld row (c # cs) =
     (if c = LF then reader_run StartRecord [] [] cs
      else if c = CR then [] # reader_run AfterCR [] [] cs
      else if c = QUOTE then reader_run InQuotedField [] [] cs
      else if c = TAB then reader_run StartField [] [[]] cs
      else reader_run InField [c] [] cs)"
| "reader_run StartField fld row (c # cs) =
     (if c = LF then (row @ [fld]) # reader_run StartRecord [] [] cs
      else if c = CR then (row @ [fld]) # reader_run AfterCR [] [] cs
      else if c = QUOTE then reader_run InQuotedField fld row cs
      else if c = TAB then reader_run StartField [] (row @ [fld]) cs
      else reader_run InField (fld @ [c]) row cs)"
| "reader_run InField fld row (c # cs) =
     (if c = LF then (row @ [fld]) # reader_run StartRecord [] [] cs
      else if c = CR then (row @ [fld]) # reader_run AfterCR [] [] cs
      else if c = TAB then reader_run StartField [] (row @ [fld]) cs
      else reader_run InField (fld @ [c]) row cs)"
| "reader_run InQuotedField fld row (c # cs) =
     (if c = QUOTE then reader_run QuoteInQuotedField fld row cs
      else reader_run InQuotedField (fld @ [c]) row cs)"
| "reader_run QuoteInQuotedField fld row (c # cs) =
     (if c = QUOTE then reader_run InQuotedField (fld @ [c]) row cs
      else if c = TAB then reader_run StartField [] (row @ [fld]) cs
      else if c = LF then (row @ [fld]) # reader_run StartRecord [] [] cs
      else if c = CR then (row @ [fld]) # reader_run AfterCR [] [] cs
      else reader_run InField (fld @ [c]) row cs)"

definition csv_reader :: "string \<Rightarrow> string list list" where
  "csv_reader content = reader_run StartRecord [] [] content"

text \<open>
  The text that \<open>writerow\<close> writes for one record, before the line terminator.
\<close>

definition record_text :: "string list \<Rightarrow> string" where
  "record_text row = (if row \<noteq> [] \<and> join_fields row = [] then [QUOTE, QUOTE] else join_fields row)"

section \<open>Auxiliary facts\<close>

subsection \<open>Float operations that do not round\<close>

lemma round_half_even_of_int: "round_half_even (of_int z) = z"
  by (simp add: round_half_even_def)

lemma rnd_of_int:
  assumes "\<bar>n\<bar> < 2 ^ 53"
  shows "rnd (of_int n) = of_int n"
proof (cases "n = 0")
  case True
  then show ?thesis by (simp add: rnd_def)
next
  case False
  define a where "a = \<bar>n\<bar>"
  have a0: "0 < a" using False by (simp add: a_def)
  have a53: "a < 2 ^ 53" using assms by (simp add: a_def)
  have b1: "1 \<le> bitlen a" using a0 bitlen_eq_zero_iff [of a] bitlen_nonneg [of a] by linarith
  have b53: "bitlen a \<le> 53" using a53 by (simp add: bitlen_le_iff_power)
  define m where "m = nat (53 - bitlen a)"
  have ex: "exponent \<bar>of_int n\<bar> = bitlen a - 1"
  proof -
    have "\<bar>real_of_int n\<bar> = of_int a" by (simp add: a_def)
    moreover have "(1::real) \<le> of_int a" using a0 by simp
    ultimately show ?thesis by (simp add: exponent_def)
  qed
  have u: "pow2 (bitlen a - 1 - 52) = 1 / 2 ^ m"
  proof (cases "bitlen a = 53")
    case True
    then show ?thesis by (simp add: pow2_def m_def)
  next
    case False
    with b53 have "bitlen a - 1 - 52 < 0" by simp
    moreover have "nat (- (bitlen a - 1 - 52)) = m" by (simp add: m_def)
    ultimately show ?thesis by (simp add: pow2_def)
  qed
  have q: "real_of_int n / (1 / 2 ^ m) = of_int (n * 2 ^ m)" by simp
  have nz: "real_of_int n \<noteq> 0" using False by simp
  have "rnd (of_int n) = (1 / 2 ^ m) * of_int (round_half_even (real_of_int n / (1 / 2 ^ m)))"
    unfolding rnd_def Let_def ex u using nz by (simp only: if_False)
  also have "\<dots> = (1 / 2 ^ m) * of_int (n * 2 ^ m)"
    by (simp only: q round_half_even_of_int)
  also have "\<dots> = of_int n" by simp
  finally show ?thesis .
qed


lemma rnd_zero: "rnd 0 = 0"
  by (simp add: rnd_def)

lemma snap_of_int: "snap (of_int z) = of_int z"
  by (simp add: snap_def rnd_zero)

lemma py_trunc_of_int: "py_trunc (of_int k) = k"
  by (simp add: py_trunc_def)

lemma py_trunc_abs_le: "\<bar>real_of_int (py_trunc q)\<bar> \<le> \<bar>q\<bar>"
proof (cases "0 \<le> q")
  case True
  then have "0 \<le> \<lfloor>q\<rfloor>" by simp
  then have "\<bar>real_of_int \<lfloor>q\<rfloor>\<bar> = of_int \<lfloor>q\<rfloor>" by simp
  also have "\<dots> \<le> q" by (rule of_int_floor_le)
  finally show ?thesis using True by (simp add: py_trunc_def)
next
  case False
  then have "\<lceil>q\<rceil> \<le> 0" by (simp add: ceiling_le_iff)
  then have "\<bar>real_of_int \<lceil>q\<rceil>\<bar> = - of_int \<lceil>q\<rceil>" by simp
  also have "\<dots> \<le> - q" using le_of_int_ceiling [of q] by simp
  finally show ?thesis using False by (simp add: py_trunc_def)
qed

text \<open>Floor division of a float below \<open>2 ^ 53\<close> in magnitude by a whole number is exact.\<close>

lemma float_floordiv_exact:
  assumes s: "\<bar>s\<bar> < 2 ^ 53" and w: "2 \<le> w"
  shows "fst (float_div_mod s (of_int w)) = of_int \<lfloor>s / of_int w\<rfloor>"
proof -
  define q where "q = s / real_of_int w"
  define t where "t = py_trunc q"
  have w0: "0 < real_of_int w" using w by simp
  have sq: "s = real_of_int w * q" using w0 by (simp add: q_def)
  have tq: "\<bar>real_of_int t\<bar> \<le> \<bar>q\<bar>" unfolding t_def by (rule py_trunc_abs_le)
  have qs: "\<bar>q\<bar> * 2 \<le> \<bar>s\<bar>"
  proof -
    have "\<bar>s\<bar> = real_of_int w * \<bar>q\<bar>" using w0 by (simp add: sq abs_mult)
    moreover have "2 * \<bar>q\<bar> \<le> real_of_int w * \<bar>q\<bar>"
      using w by (intro mult_right_mono) simp_all
    ultimately show ?thesis by simp
  qed
  have t52: "\<bar>real_of_int t\<bar> * 2 < 2 ^ 53" using tq qs s by linarith
  have wt: "\<bar>real_of_int (w * t)\<bar> < 2 ^ 53"
  proof -
    have "\<bar>real_of_int (w * t)\<bar> = real_of_int w * \<bar>real_of_int t\<bar>"
      using w0 by (simp add: abs_mult)
    also have "\<dots> \<le> real_of_int w * \<bar>q\<bar>" using tq w0 by (intro mult_left_mono) simp_all
    also have "\<dots> = \<bar>s\<bar>" using w0 by (simp add: sq abs_mult)
    finally show ?thesis using s by simp
  qed
  have wt': "\<bar>w * t\<bar> < 2 ^ 53" using wt by (metis of_int_abs of_int_less_numeral_power_cancel_iff)
  have t': "\<bar>t\<bar> < 2 ^ 53"
  proof -
    have "\<bar>real_of_int t\<bar> < 2 ^ 53" using t52 by simp
    then show ?thesis by (metis of_int_abs of_int_less_numeral_power_cancel_iff)
  qed
  have t1': "\<bar>t - 1\<bar> < 2 ^ 53"
  proof -
    have "\<bar>real_of_int t\<bar> < 2 ^ 52" using t52 by simp
    then have "\<bar>t\<bar> < 2 ^ 52" by (metis of_int_abs of_int_less_numeral_power_cancel_iff)
    then show ?thesis by simp
  qed
  have mod0: "c_fmod s (of_int w) = s - of_int (w * t)"
    unfolding c_fmod_def t_def q_def by simp
  have sub: "rnd (s - c_fmod s (of_int w)) = of_int (w * t)"
    using rnd_of_int [OF wt'] by (simp add: mod0)
  have div0: "rnd (rnd (s - c_fmod s (of_int w)) / of_int w) = of_int t"
    using rnd_of_int [OF t'] w0 by (simp add: sub)
  have neg: "c_fmod s (of_int w) < 0 \<longleftrightarrow> q < of_int t"
  proof -
    have "c_fmod s (of_int w) = real_of_int w * (q - of_int t)"
      unfolding mod0 using sq by (simp add: algebra_simps)
    then show ?thesis using w0 by (simp add: mult_less_0_iff)
  qed
  show ?thesis
  proof (cases "q < of_int t")
    case True
    have nq: "\<not> 0 \<le> q"
    proof
      assume "0 \<le> q"
      then have "t = \<lfloor>q\<rfloor>" by (simp add: t_def py_trunc_def)
      with True have "q < real_of_int \<lfloor>q\<rfloor>" by simp
      then show False by linarith
    qed
    then have tc: "t = \<lceil>q\<rceil>" by (simp add: t_def py_trunc_def)
    have fl: "\<lfloor>q\<rfloor> = t - 1"
    proof -
      have "real_of_int (t - 1) \<le> q" using ceiling_correct [of q] by (simp add: tc)
      moreover have "q < real_of_int (t - 1) + 1" using True by simp
      ultimately show ?thesis by (simp add: floor_unique)
    qed
    have adj: "(c_fmod s (of_int w) \<noteq> 0 \<and> ((real_of_int w < 0) \<noteq> (c_fmod s (of_int w) < 0))) = True"
      using True neg w0 by auto
    have div1: "rnd (real_of_int t - 1) = of_int (t - 1)"
      using rnd_of_int [OF t1'] by simp
    have "fst (float_div_mod s (of_int w)) = snap (of_int (t - 1))"
      unfolding float_div_mod_def Let_def div0 adj div1 by simp
    then have "fst (float_div_mod s (of_int w)) = of_int (t - 1)"
      by (simp only: snap_of_int)
    then show ?thesis by (simp add: fl q_def [symmetric])
  next
    case False
    have fl: "\<lfloor>q\<rfloor> = t"
    proof (cases "0 \<le> q")
      case True
      then show ?thesis by (simp add: t_def py_trunc_def)
    next
      case nq: False
      then have tc: "t = \<lceil>q\<rceil>" by (simp add: t_def py_trunc_def)
      with False have "q = of_int t" using le_of_int_ceiling [of q] by simp
      then show ?thesis by simp
    qed
    have nadj: "(c_fmod s (of_int w) \<noteq> 0 \<and> ((real_of_int w < 0) \<noteq> (c_fmod s (of_int w) < 0))) = False"
      using False neg w0 by auto
    have "fst (float_div_mod s (of_int w)) = snap (of_int t)"
      unfolding float_div_mod_def Let_def div0 nadj by simp
    then have "fst (float_div_mod s (of_int w)) = of_int t"
      by (simp only: snap_of_int)
    then show ?thesis by (simp add: fl q_def [symmetric])
  qed
qed

text \<open>The remainder of a float that is not negative is the exact one.\<close>

lemma float_rem_nonneg:
  assumes "0 \<le> s" and "0 < w"
  shows "float_rem s w = floor_mod s w"
proof -
  have q: "0 \<le> s / w" using assms by simp
  have m: "c_fmod s w = floor_mod s w" using q by (simp add: c_fmod_def floor_mod_def py_trunc_def)
  have "of_int \<lfloor>s / w\<rfloor> \<le> s / w" by (rule of_int_floor_le)
  then have "of_int \<lfloor>s / w\<rfloor> * w \<le> s" using assms by (simp only: pos_le_divide_eq)
  then have "0 \<le> floor_mod s w" by (simp add: floor_mod_def algebra_simps)
  then show ?thesis using assms by (simp add: float_rem_def m Let_def)
qed


subsection \<open>format_time\<close>

lemma format_time_Finite:
  "format_time (Finite x) =
     Inr (fmt_02d (py_trunc (fst (float_div_mod x 3600))) @ '':'' @
          fmt_02d (py_trunc (fst (float_div_mod (float_rem x 3600) 60))) @ '':'' @
          fmt_02d (py_trunc (float_rem x 60)))"
  by (simp add: format_time_def Let_def)

lemma format_time_not_finite: "\<not> is_finite t \<Longrightarrow> format_time t = Inl ValueError"
  by (cases t) (simp_all add: format_time_def)

lemma timecode_Finite: "format_time (Finite x) = Inr (timecode (Finite x))"
  by (simp add: timecode_def format_time_Finite)

lemma floor_mod_range: "0 < y \<Longrightarrow> 0 \<le> floor_mod x y \<and> floor_mod x y < y"
proof -
  assume y: "0 < y"
  have a: "of_int \<lfloor>x / y\<rfloor> \<le> x / y" by (rule of_int_floor_le)
  have b: "x / y < of_int \<lfloor>x / y\<rfloor> + 1" by linarith
  from a y have "of_int \<lfloor>x / y\<rfloor> * y \<le> x" by (simp only: pos_le_divide_eq)
  moreover from b y have "x < (of_int \<lfloor>x / y\<rfloor> + 1) * y" by (simp only: pos_divide_less_eq)
  ultimately show ?thesis by (simp add: floor_mod_def algebra_simps)
qed

lemma floor_floor_mod: "0 < n \<Longrightarrow> \<lfloor>floor_mod x (of_int n)\<rfloor> = \<lfloor>x\<rfloor> mod n"
proof -
  assume n: "0 < n"
  have "\<lfloor>x / of_int n\<rfloor> = \<lfloor>x\<rfloor> div n" using n by (simp add: floor_divide_real_eq_div)
  then have "floor_mod x (of_int n) = x - of_int (n * (\<lfloor>x\<rfloor> div n))" by (simp add: floor_mod_def)
  then have "\<lfloor>floor_mod x (of_int n)\<rfloor> = \<lfloor>x\<rfloor> - n * (\<lfloor>x\<rfloor> div n)" by (simp only: floor_diff_of_int)
  then show ?thesis by (simp add: minus_mult_div_eq_mod)
qed

text \<open>
  For a time that is not negative and below \<open>2 ^ 53\<close> seconds no operation of
  \<open>format_time\<close> rounds, and the three fields are functions of the whole number of
  seconds \<open>\<lfloor>s\<rfloor>\<close>.
\<close>

lemma format_time_floor:
  assumes "0 \<le> s" and "s < 2 ^ 53"
  shows "format_time (Finite s) =
     Inr (fmt_02d (\<lfloor>s\<rfloor> div 3600) @ '':'' @ fmt_02d (\<lfloor>s\<rfloor> mod 3600 div 60) @ '':'' @
          fmt_02d (\<lfloor>s\<rfloor> mod 60))"
proof -
  have abs_s: "\<bar>s\<bar> < 2 ^ 53" using assms by simp
  have "fst (float_div_mod s (of_int 3600)) = of_int \<lfloor>s / of_int 3600\<rfloor>"
    using abs_s by (rule float_floordiv_exact) simp
  moreover have "\<lfloor>s / of_int 3600\<rfloor> = \<lfloor>s\<rfloor> div 3600"
    by (rule floor_divide_real_eq_div) simp
  ultimately have h: "py_trunc (fst (float_div_mod s 3600)) = \<lfloor>s\<rfloor> div 3600"
    by (simp add: py_trunc_of_int)
  have r1: "float_rem s 3600 = floor_mod s 3600"
    using assms(1) by (rule float_rem_nonneg) simp
  have rng: "0 \<le> floor_mod s 3600 \<and> floor_mod s 3600 < 3600"
    by (rule floor_mod_range) simp
  then have abs_r: "\<bar>floor_mod s 3600\<bar> < 2 ^ 53" by simp
  have "fst (float_div_mod (floor_mod s 3600) (of_int 60)) = of_int \<lfloor>floor_mod s 3600 / of_int 60\<rfloor>"
    using abs_r by (rule float_floordiv_exact) simp
  moreover have "\<lfloor>floor_mod s 3600 / of_int 60\<rfloor> = \<lfloor>floor_mod s 3600\<rfloor> div 60"
    by (rule floor_divide_real_eq_div) simp
  moreover have "\<lfloor>floor_mod s 3600\<rfloor> = \<lfloor>s\<rfloor> mod 3600"
    using floor_floor_mod [of 3600 s] by simp
  ultimately have m: "py_trunc (fst (float_div_mod (float_rem s 3600) 60)) = \<lfloor>s\<rfloor> mod 3600 div 60"
    by (simp add: r1 py_trunc_of_int)
  have r2: "float_rem s 60 = floor_mod s 60"
    using assms(1) by (rule float_rem_nonneg) simp
  have "0 \<le> floor_mod s 60" using floor_mod_range [of 60 s] by simp
  then have "py_trunc (floor_mod s 60) = \<lfloor>floor_mod s 60\<rfloor>" by (simp add: py_trunc_def)
  also have "\<dots> = \<lfloor>s\<rfloor> mod 60" using floor_floor_mod [of 60 s] by simp
  finally have c: "py_trunc (float_rem s 60) = \<lfloor>s\<rfloor> mod 60" by (simp add: r2)
  show ?thesis unfolding format_time_Finite h m c ..
qed



subsection \<open>Whole numbers of seconds\<close>

lemma div3600_small: "(n::int) div 3600 < 100 \<longleftrightarrow> n < 360000"
proof -
  have d: "n = 3600 * (n div 3600) + n mod 3600" by simp
  have r: "0 \<le> n mod 3600" "n mod 3600 < 3600" by simp_all
  from d r show ?thesis by linarith
qed

lemma min_bound: "(n::int) mod 3600 div 60 < 60"
proof -
  have d: "n mod 3600 = 60 * (n mod 3600 div 60) + n mod 3600 mod 60" by simp
  have r: "0 \<le> n mod 3600 mod 60" "n mod 3600 < 3600" by simp_all
  from d r show ?thesis by linarith
qed

lemma min_eq: "(n::int) mod 3600 div 60 = n div 60 mod 60"
proof -
  have "n mod (60 * 60) = 60 * (n div 60 mod 60) + n mod 60"
    by (rule zmod_zmult2_eq) simp
  then have "n mod 3600 div 60 = (60 * (n div 60 mod 60) + n mod 60) div 60" by simp
  also have "\<dots> = n div 60 mod 60" by simp
  finally show ?thesis .
qed

lemma floor_decomp: "(n::int) = 3600 * (n div 3600) + 60 * (n mod 3600 div 60) + n mod 60"
proof -
  have "n mod (60 * 60) = 60 * (n div 60 mod 60) + n mod 60"
    by (rule zmod_zmult2_eq) simp
  moreover have "n = 3600 * (n div 3600) + n mod 3600" by simp
  ultimately show ?thesis by (simp add: min_eq)
qed

subsection \<open>Decimal digits\<close>

lemma digit_cases: "d < 10 \<Longrightarrow> d \<in> {0, 1, 2, 3, 4, 5, 6, 7, 8, 9 :: nat}"
  by auto

lemma digit_val_digit_char: "d < 10 \<Longrightarrow> digit_val (digit_char d) = d"
  using digit_cases [of d] by (auto simp: digit_val_def digit_char_def)

lemma is_digit_digit_char: "d < 10 \<Longrightarrow> is_digit (digit_char d)"
  using digit_cases [of d] by (auto simp: is_digit_def digit_char_def)

lemma dec_val_snoc: "dec_val (ds @ [c]) = 10 * dec_val ds + digit_val c"
  by (simp add: dec_val_def)

lemma dec_val_str_nat: "dec_val (str_nat n) = n"
proof (induction n rule: str_nat.induct)
  case (1 n)
  show ?case
  proof (cases "n < 10")
    case True
    then show ?thesis
      by (subst str_nat.simps) (simp add: dec_val_def digit_val_digit_char)
  next
    case False
    with 1 have "dec_val (str_nat (n div 10)) = n div 10" by simp
    with False show ?thesis
      by (subst str_nat.simps) (simp add: dec_val_snoc digit_val_digit_char)
  qed
qed

lemma digits_str_nat: "list_all is_digit (str_nat n)"
proof (induction n rule: str_nat.induct)
  case (1 n)
  show ?case
  proof (cases "n < 10")
    case True
    then show ?thesis by (subst str_nat.simps) (simp add: is_digit_digit_char)
  next
    case False
    with 1 have "list_all is_digit (str_nat (n div 10))" by simp
    with False show ?thesis by (subst str_nat.simps) (simp add: is_digit_digit_char)
  qed
qed

lemma length_str_nat_small: "n < 10 \<Longrightarrow> length (str_nat n) = 1"
  by (subst str_nat.simps) simp

lemma length_str_nat_step: "10 \<le> n \<Longrightarrow> length (str_nat n) = Suc (length (str_nat (n div 10)))"
  by (subst str_nat.simps) simp

lemma length_str_nat_pos: "0 < length (str_nat n)"
  by (cases "n < 10") (simp_all add: length_str_nat_small length_str_nat_step)

lemma length_str_nat_two: "10 \<le> n \<Longrightarrow> n < 100 \<Longrightarrow> length (str_nat n) = 2"
  by (simp add: length_str_nat_step length_str_nat_small)

lemma length_str_nat_more: "100 \<le> n \<Longrightarrow> 3 \<le> length (str_nat n)"
proof -
  assume n: "100 \<le> n"
  then have "10 \<le> n div 10" by simp
  then have "length (str_nat (n div 10)) = Suc (length (str_nat (n div 10 div 10)))"
    by (rule length_str_nat_step)
  moreover have "length (str_nat n) = Suc (length (str_nat (n div 10)))"
    using n by (simp add: length_str_nat_step)
  ultimately show ?thesis using length_str_nat_pos [of "n div 10 div 10"] by linarith
qed

lemma dec_val_zeros: "dec_val (replicate k CHR ''0'' @ ds) = dec_val ds"
proof -
  have "foldl (\<lambda>a c. 10 * a + digit_val c) 0 (replicate k CHR ''0'') = 0"
    by (induction k) (simp_all add: digit_val_def)
  then show ?thesis by (simp add: dec_val_def)
qed

lemma fmt_02d_nonneg:
  "0 \<le> n \<Longrightarrow> fmt_02d n = replicate (2 - length (str_nat (nat n))) CHR ''0'' @ str_nat (nat n)"
  by (simp add: fmt_02d_def Let_def)

lemma digits_zeros: "list_all is_digit (replicate k CHR ''0'')"
  by (induction k) (simp_all add: is_digit_def)

lemma fmt_02d_digits: "0 \<le> n \<Longrightarrow> list_all is_digit (fmt_02d n)"
  by (simp add: fmt_02d_nonneg digits_str_nat digits_zeros)

lemma fmt_02d_value: "0 \<le> n \<Longrightarrow> int (dec_val (fmt_02d n)) = n"
  by (simp add: fmt_02d_nonneg dec_val_zeros dec_val_str_nat)

lemma fmt_02d_length_small: "0 \<le> n \<Longrightarrow> n < 100 \<Longrightarrow> length (fmt_02d n) = 2"
proof -
  assume n: "0 \<le> n" "n < 100"
  show ?thesis
  proof (cases "n < 10")
    case True
    with n have "length (str_nat (nat n)) = 1" by (simp add: length_str_nat_small)
    with n show ?thesis by (simp add: fmt_02d_nonneg)
  next
    case False
    with n have "length (str_nat (nat n)) = 2" by (simp add: length_str_nat_two)
    with n show ?thesis by (simp add: fmt_02d_nonneg)
  qed
qed

lemma fmt_02d_length_large: "100 \<le> n \<Longrightarrow> 3 \<le> length (fmt_02d n)"
proof -
  assume n: "100 \<le> n"
  then have "3 \<le> length (str_nat (nat n))" by (simp add: length_str_nat_more)
  with n show ?thesis by (simp add: fmt_02d_nonneg)
qed

lemma fmt_02d_chars: "list_all (\<lambda>c. is_digit c \<or> c = CHR ''-'') (fmt_02d n)"
proof -
  have d: "list_all (\<lambda>c. is_digit c \<or> c = CHR ''-'') (str_nat k)" for k
    using digits_str_nat [of k] by (rule list.pred_mono_strong) blast
  have z: "list_all (\<lambda>c. is_digit c \<or> c = CHR ''-'') (replicate k CHR ''0'')" for k
    using digits_zeros [of k] by (rule list.pred_mono_strong) blast
  show ?thesis by (simp add: fmt_02d_def Let_def d z)
qed

lemma fmt_02d_nonempty: "fmt_02d n \<noteq> []"
  using length_str_nat_pos [of "nat \<bar>n\<bar>"] by (simp add: fmt_02d_def Let_def)

lemma fmt_02d_no_colon: "CHR '':'' \<notin> set (fmt_02d n)"
proof
  assume "CHR '':'' \<in> set (fmt_02d n)"
  with fmt_02d_chars [of n] have "is_digit CHR '':'' \<or> CHR '':'' = CHR ''-''"
    unfolding list_all_iff by blast
  then show False by (simp add: is_digit_def)
qed

lemma format_time_fields:
  "\<exists>h m sec. format_time (Finite x) = Inr (fmt_02d h @ '':'' @ fmt_02d m @ '':'' @ fmt_02d sec)"
  unfolding format_time_Finite by blast

lemma timecode_fields:
  assumes "is_finite t"
  shows "\<exists>h m sec. timecode t = fmt_02d h @ '':'' @ fmt_02d m @ '':'' @ fmt_02d sec"
proof -
  from assms obtain x where t: "t = Finite x" by (cases t) simp_all
  from format_time_fields [of x] obtain h m sec where
    "format_time (Finite x) = Inr (fmt_02d h @ '':'' @ fmt_02d m @ '':'' @ fmt_02d sec)" by blast
  then have "timecode t = fmt_02d h @ '':'' @ fmt_02d m @ '':'' @ fmt_02d sec"
    by (simp add: timecode_def t)
  then show ?thesis by blast
qed

lemma timecode_nonempty: "is_finite t \<Longrightarrow> timecode t \<noteq> []"
  using timecode_fields [of t] by auto

lemma timecode_chars:
  assumes "is_finite t"
  shows "list_all (\<lambda>c. is_digit c \<or> c = CHR ''-'' \<or> c = CHR '':'') (timecode t)"
proof -
  have w: "list_all (\<lambda>c. is_digit c \<or> c = CHR ''-'' \<or> c = CHR '':'') (fmt_02d n)" for n
    using fmt_02d_chars [of n] by (rule list.pred_mono_strong) blast
  from timecode_fields [OF assms] obtain h m sec where
    "timecode t = fmt_02d h @ '':'' @ fmt_02d m @ '':'' @ fmt_02d sec" by blast
  then show ?thesis by (simp add: w)
qed

subsection \<open>The three loops\<close>

lemma getitem_Some: "getitem (Some v) k = Inr v"
  by (simp add: getitem_def)

lemma getitem_None: "getitem None k = Inl (KeyError k)"
  by (simp add: getitem_def)

lemma is_finiteD: "is_finite t \<Longrightarrow> \<exists>x. t = Finite x"
  by (cases t) simp_all

lemma format_time_finite: "is_finite t \<Longrightarrow> format_time t = Inr (timecode t)"
  using timecode_Finite by (cases t) simp_all

lemma completeD:
  assumes "complete seg" and "finite_times seg"
  shows "\<exists>st en tx. seg_start seg = Some st \<and> seg_end seg = Some en \<and> seg_text seg = Some tx \<and>
     format_time st = Inr (timecode st) \<and> format_time en = Inr (timecode en)"
proof -
  from assms(1) obtain st en tx where
    f: "seg_start seg = Some st" "seg_end seg = Some en" "seg_text seg = Some tx"
    by (auto simp: complete_def)
  from assms(2) f have "is_finite st" "is_finite en" by (simp_all add: finite_times_def)
  then have "format_time st = Inr (timecode st)" "format_time en = Inr (timecode en)"
    by (simp_all add: format_time_finite)
  with f show ?thesis by blast
qed

lemma srt_loop_complete:
  "list_all complete segs \<Longrightarrow> list_all finite_times segs \<Longrightarrow>
   srt_loop i segs acc = Inr (acc @ concat (map srt_cue (enumerate i segs)))"
proof (induction segs arbitrary: i acc)
  case Nil
  show ?case by simp
next
  case (Cons seg rest)
  from Cons.prems have c: "complete seg" "finite_times seg"
    and r: "list_all complete rest" "list_all finite_times rest" by simp_all
  from completeD [OF c] obtain st en tx where
    f: "seg_start seg = Some st" "seg_end seg = Some en" "seg_text seg = Some tx"
       "format_time st = Inr (timecode st)" "format_time en = Inr (timecode en)" by blast
  have "srt_loop i (seg # rest) acc = srt_loop (i + 1) rest (acc @ srt_cue (i, seg))"
    by (simp add: f getitem_Some srt_cue_def)
  also have "\<dots> = Inr ((acc @ srt_cue (i, seg)) @ concat (map srt_cue (enumerate (i + 1) rest)))"
    using r by (rule Cons.IH)
  finally show ?case by simp
qed

lemma vtt_loop_complete:
  "list_all complete segs \<Longrightarrow> list_all finite_times segs \<Longrightarrow>
   vtt_loop i segs acc = Inr (acc @ concat (map vtt_cue segs))"
proof (induction segs arbitrary: i acc)
  case Nil
  show ?case by simp
next
  case (Cons seg rest)
  from Cons.prems have c: "complete seg" "finite_times seg"
    and r: "list_all complete rest" "list_all finite_times rest" by simp_all
  from completeD [OF c] obtain st en tx where
    f: "seg_start seg = Some st" "seg_end seg = Some en" "seg_text seg = Some tx"
       "format_time st = Inr (timecode st)" "format_time en = Inr (timecode en)" by blast
  have "vtt_loop i (seg # rest) acc = vtt_loop (i + 1) rest (acc @ vtt_cue seg)"
    by (simp add: f getitem_Some vtt_cue_def)
  also have "\<dots> = Inr ((acc @ vtt_cue seg) @ concat (map vtt_cue rest))"
    using r by (rule Cons.IH)
  finally show ?case by simp
qed

lemma tsv_loop_complete:
  "list_all complete segs \<Longrightarrow> list_all finite_times segs \<Longrightarrow>
   tsv_loop segs acc = Inr (foldl writerow acc (map tsv_row segs))"
proof (induction segs arbitrary: acc)
  case Nil
  show ?case by simp
next
  case (Cons seg rest)
  from Cons.prems have c: "complete seg" "finite_times seg"
    and r: "list_all complete rest" "list_all finite_times rest" by simp_all
  from completeD [OF c] obtain st en tx where
    f: "seg_start seg = Some st" "seg_end seg = Some en" "seg_text seg = Some tx"
       "format_time st = Inr (timecode st)" "format_time en = Inr (timecode en)" by blast
  have "tsv_loop (seg # rest) acc = tsv_loop rest (writerow acc (tsv_row seg))"
    by (simp add: f getitem_Some tsv_row_def)
  also have "\<dots> = Inr (foldl writerow (writerow acc (tsv_row seg)) (map tsv_row rest))"
    using r by (rule Cons.IH)
  finally show ?case by simp
qed

text \<open>
  What the body of each loop does with a segment that lacks a key, when the times that it
  has are finite: the lookups and the calls of \<open>format_time\<close> before the missing key
  succeed, and the lookup of the missing key raises.
\<close>

lemma first_missing_key:
  assumes "\<not> complete seg" and "finite_times seg"
  shows "(case getitem (seg_start seg) ''start'' of Inl e \<Rightarrow> Inl e | Inr st \<Rightarrow>
      (case format_time st of Inl e \<Rightarrow> Inl e | Inr t1 \<Rightarrow>
       (case getitem (seg_end seg) ''end'' of Inl e \<Rightarrow> Inl e | Inr en \<Rightarrow>
        (case format_time en of Inl e \<Rightarrow> Inl e | Inr t2 \<Rightarrow>
         (case getitem (seg_text seg) ''text'' of Inl e \<Rightarrow> Inl e | Inr tx \<Rightarrow> k t1 t2 tx)))))
     = Inl (KeyError (missing_key seg))"
proof (cases "seg_start seg")
  case None
  then show ?thesis by (simp add: getitem_None missing_key_def)
next
  case (Some st)
  with assms(2) have "is_finite st" by (simp add: finite_times_def)
  then have fs: "format_time st = Inr (timecode st)" by (rule format_time_finite)
  show ?thesis
  proof (cases "seg_end seg")
    case None
    with Some fs show ?thesis by (simp add: getitem_None getitem_Some missing_key_def)
  next
    case en: (Some en)
    with assms(2) have "is_finite en" by (simp add: finite_times_def)
    then have fe: "format_time en = Inr (timecode en)" by (rule format_time_finite)
    from assms(1) Some en have "seg_text seg = None" by (simp add: complete_def)
    with Some en fs fe show ?thesis by (simp add: getitem_None getitem_Some missing_key_def)
  qed
qed

lemma srt_loop_missing:
  "list_all complete pre \<Longrightarrow> list_all finite_times pre \<Longrightarrow> \<not> complete seg \<Longrightarrow> finite_times seg \<Longrightarrow>
   srt_loop i (pre @ seg # post) acc = Inl (KeyError (missing_key seg))"
proof (induction pre arbitrary: i acc)
  case Nil
  have "srt_loop i (seg # post) acc =
     (case getitem (seg_start seg) ''start'' of Inl e \<Rightarrow> Inl e | Inr st \<Rightarrow>
      (case format_time st of Inl e \<Rightarrow> Inl e | Inr t1 \<Rightarrow>
       (case getitem (seg_end seg) ''end'' of Inl e \<Rightarrow> Inl e | Inr en \<Rightarrow>
        (case format_time en of Inl e \<Rightarrow> Inl e | Inr t2 \<Rightarrow>
         (case getitem (seg_text seg) ''text'' of Inl e \<Rightarrow> Inl e | Inr tx \<Rightarrow>
            srt_loop (i + 1) post
              (acc @ str_nat i @ [LF] @ (t1 @ '',000'') @ '' --> '' @ (t2 @ '',000'') @ [LF] @ tx @ [LF, LF]))))))"
    by (simp add: Let_def split: sum.splits)
  also have "\<dots> = Inl (KeyError (missing_key seg))"
    using Nil.prems(3,4) by (rule first_missing_key)
  finally show ?case by simp
next
  case (Cons p pre)
  from Cons.prems have c: "complete p" "finite_times p"
    and r: "list_all complete pre" "list_all finite_times pre" by simp_all
  from completeD [OF c] obtain st en tx where
    f: "seg_start p = Some st" "seg_end p = Some en" "seg_text p = Some tx"
       "format_time st = Inr (timecode st)" "format_time en = Inr (timecode en)" by blast
  show ?case using Cons.IH [OF r Cons.prems(3,4)] by (simp add: f getitem_Some)
qed

lemma vtt_loop_missing:
  "list_all complete pre \<Longrightarrow> list_all finite_times pre \<Longrightarrow> \<not> complete seg \<Longrightarrow> finite_times seg \<Longrightarrow>
   vtt_loop i (pre @ seg # post) acc = Inl (KeyError (missing_key seg))"
proof (induction pre arbitrary: i acc)
  case Nil
  show ?case using first_missing_key [OF Nil.prems(3,4)] by simp
next
  case (Cons p pre)
  from Cons.prems have c: "complete p" "finite_times p"
    and r: "list_all complete pre" "list_all finite_times pre" by simp_all
  from completeD [OF c] obtain st en tx where
    f: "seg_start p = Some st" "seg_end p = Some en" "seg_text p = Some tx"
       "format_time st = Inr (timecode st)" "format_time en = Inr (timecode en)" by blast
  show ?case using Cons.IH [OF r Cons.prems(3,4)] by (simp add: f getitem_Some)
qed

lemma tsv_loop_missing:
  "list_all complete pre \<Longrightarrow> list_all finite_times pre \<Longrightarrow> \<not> complete seg \<Longrightarrow> finite_times seg \<Longrightarrow>
   tsv_loop (pre @ seg # post) acc = Inl (KeyError (missing_key seg))"
proof (induction pre arbitrary: acc)
  case Nil
  show ?case using first_missing_key [OF Nil.prems(3,4)] by simp
next
  case (Cons p pre)
  from Cons.prems have c: "complete p" "finite_times p"
    and r: "list_all complete pre" "list_all finite_times pre" by simp_all
  from completeD [OF c] obtain st en tx where
    f: "seg_start p = Some st" "seg_end p = Some en" "seg_text p = Some tx"
       "format_time st = Inr (timecode st)" "format_time en = Inr (timecode en)" by blast
  show ?case using Cons.IH [OF r Cons.prems(3,4)] by (simp add: f getitem_Some)
qed

subsection \<open>The writer and the quote-aware reader\<close>

lemma writerow_record_text: "writerow acc row = acc @ record_text row @ [CR, LF]"
  by (simp add: writerow_def record_text_def Let_def)

lemma foldl_writerow: "foldl writerow acc rows = acc @ concat (map (\<lambda>r. record_text r @ [CR, LF]) rows)"
  by (induction rows arbitrary: acc) (simp_all add: writerow_record_text)

lemma record_text_three: "record_text [a, b, c] = join_append a @ [TAB] @ join_append b @ [TAB] @ join_append c"
  by (simp add: record_text_def)

lemma header_text: "record_text [''Start'', ''End'', ''Text''] = ''Start'' @ [TAB] @ ''End'' @ [TAB] @ ''Text''"
  by (simp add: record_text_def join_append_def csv_special_def)

lemma read_plain:
  "list_all (\<lambda>c. \<not> csv_special c) f \<Longrightarrow>
   reader_run InField fld row (f @ rest) = reader_run InField (fld @ f) row rest"
  by (induction f arbitrary: fld) (simp_all add: csv_special_def)

lemma read_quoted:
  "reader_run InQuotedField fld row (join_append_data f @ QUOTE # rest)
   = reader_run QuoteInQuotedField (fld @ f) row rest"
  by (induction f arbitrary: fld) (simp_all add: join_append_data_def)

lemma read_field_tab:
  "reader_run StartField [] row (join_append f @ TAB # rest) = reader_run StartField [] (row @ [f]) rest"
proof (cases "list_ex csv_special f")
  case True
  then show ?thesis by (simp add: join_append_def read_quoted)
next
  case False
  then have p: "list_all (\<lambda>c. \<not> csv_special c) f" by (simp add: list_all_iff list_ex_iff)
  show ?thesis
  proof (cases f)
    case Nil
    then show ?thesis by (simp add: join_append_def)
  next
    case (Cons c f')
    with p have c: "\<not> csv_special c" and p': "list_all (\<lambda>c. \<not> csv_special c) f'" by simp_all
    from c have "reader_run StartField [] row (c # f' @ TAB # rest) = reader_run InField [c] row (f' @ TAB # rest)"
      by (simp add: csv_special_def)
    also have "\<dots> = reader_run InField ([c] @ f') row (TAB # rest)" using p' by (rule read_plain)
    finally show ?thesis using False Cons by (simp add: join_append_def)
  qed
qed

lemma read_field_eol:
  "reader_run StartField [] row (join_append f @ CR # LF # rest) = (row @ [f]) # reader_run StartRecord [] [] rest"
proof (cases "list_ex csv_special f")
  case True
  then show ?thesis by (simp add: join_append_def read_quoted)
next
  case False
  then have p: "list_all (\<lambda>c. \<not> csv_special c) f" by (simp add: list_all_iff list_ex_iff)
  show ?thesis
  proof (cases f)
    case Nil
    then show ?thesis by (simp add: join_append_def)
  next
    case (Cons c f')
    with p have c: "\<not> csv_special c" and p': "list_all (\<lambda>c. \<not> csv_special c) f'" by simp_all
    from c have "reader_run StartField [] row (c # f' @ CR # LF # rest) = reader_run InField [c] row (f' @ CR # LF # rest)"
      by (simp add: csv_special_def)
    also have "\<dots> = reader_run InField ([c] @ f') row (CR # LF # rest)" using p' by (rule read_plain)
    finally show ?thesis using False Cons by (simp add: join_append_def)
  qed
qed

lemma read_fields:
  "fs \<noteq> [] \<Longrightarrow>
   reader_run StartField [] row (join_fields fs @ CR # LF # rest) = (row @ fs) # reader_run StartRecord [] [] rest"
proof (induction fs arbitrary: row rule: join_fields.induct)
  case 1
  then show ?case by simp
next
  case (2 f)
  show ?case by (simp add: read_field_eol)
next
  case (3 f g fs)
  have "reader_run StartField [] row (join_fields (f # g # fs) @ CR # LF # rest)
        = reader_run StartField [] (row @ [f]) (join_fields (g # fs) @ CR # LF # rest)"
    using read_field_tab [of row f "join_fields (g # fs) @ CR # LF # rest"] by simp
  also have "\<dots> = ((row @ [f]) @ g # fs) # reader_run StartRecord [] [] rest"
    by (rule "3.IH") simp
  finally show ?case by simp
qed

lemma join_append_hd:
  "join_append f \<noteq> [] \<Longrightarrow> hd (join_append f) \<noteq> LF \<and> hd (join_append f) \<noteq> CR"
  by (cases f) (auto simp: join_append_def csv_special_def)

lemma join_fields_hd:
  "join_fields fs \<noteq> [] \<Longrightarrow> hd (join_fields fs) \<noteq> LF \<and> hd (join_fields fs) \<noteq> CR"
proof (induction fs rule: join_fields.induct)
  case 1
  then show ?case by simp
next
  case (2 f)
  then show ?case using join_append_hd [of f] by simp
next
  case (3 f g fs)
  show ?case using join_append_hd [of f] by (cases "join_append f") simp_all
qed

lemma read_record:
  "row \<noteq> [] \<Longrightarrow>
   reader_run StartRecord [] [] (record_text row @ CR # LF # rest) = row # reader_run StartRecord [] [] rest"
proof (cases "join_fields row = []")
  case True
  assume ne: "row \<noteq> []"
  have "row = [[]]"
  proof (cases row rule: join_fields.cases)
    case 1
    with ne show ?thesis by simp
  next
    case (2 f)
    with True show ?thesis by (cases f) (auto simp: join_append_def split: if_splits)
  next
    case (3 f g fs)
    with True show ?thesis by simp
  qed
  then show ?thesis by (simp add: record_text_def join_append_def)
next
  case False
  assume ne: "row \<noteq> []"
  from False obtain c cs where j: "join_fields row = c # cs" by (cases "join_fields row") auto
  with join_fields_hd [of row] have c: "c \<noteq> LF" "c \<noteq> CR" by simp_all
  have "reader_run StartRecord [] [] (join_fields row @ CR # LF # rest)
        = reader_run StartField [] [] (join_fields row @ CR # LF # rest)"
    using c by (simp add: j)
  also have "\<dots> = ([] @ row) # reader_run StartRecord [] [] rest" using ne by (rule read_fields)
  finally show ?thesis using False by (simp add: record_text_def)
qed

lemma read_records:
  "list_all (\<lambda>r. r \<noteq> []) rows \<Longrightarrow>
   reader_run StartRecord [] [] (concat (map (\<lambda>r. record_text r @ [CR, LF]) rows)) = rows"
proof (induction rows)
  case Nil
  show ?case by simp
next
  case (Cons r rows)
  then have r: "r \<noteq> []" and rs: "list_all (\<lambda>r. r \<noteq> []) rows" by simp_all
  show ?case using read_record [OF r] Cons.IH [OF rs] by simp
qed

lemma csv_reader_writerows:
  "list_all (\<lambda>r. r \<noteq> []) rows \<Longrightarrow> csv_reader (foldl writerow [] rows) = rows"
  by (simp add: csv_reader_def foldl_writerow read_records)

subsection \<open>Splitting plain rows\<close>

lemma split_on_plain: "sep \<notin> set a \<Longrightarrow> split_on sep a = [a]"
  by (induction a) auto

lemma split_on_append: "sep \<notin> set a \<Longrightarrow> split_on sep (a @ sep # rest) = a # split_on sep rest"
  by (induction a) auto

lemma split_lines:
  "list_all (\<lambda>l. LF \<notin> set l) ls \<Longrightarrow>
   split_on LF (concat (map (\<lambda>l. l @ [CR, LF]) ls)) = map (\<lambda>l. l @ [CR]) ls @ [[]]"
proof (induction ls)
  case Nil
  show ?case by simp
next
  case (Cons l ls)
  then have l: "LF \<notin> set (l @ [CR])" and r: "list_all (\<lambda>l. LF \<notin> set l) ls" by simp_all
  have "split_on LF ((l @ [CR]) @ LF # concat (map (\<lambda>l. l @ [CR, LF]) ls))
        = (l @ [CR]) # split_on LF (concat (map (\<lambda>l. l @ [CR, LF]) ls))"
    using l by (rule split_on_append)
  then show ?case using Cons.IH [OF r] by simp
qed

lemma strip_cr_snoc: "strip_cr (l @ [CR]) = l"
  by (simp add: strip_cr_def)

lemma split_three:
  "TAB \<notin> set a \<Longrightarrow> TAB \<notin> set b \<Longrightarrow> TAB \<notin> set c \<Longrightarrow>
   split_on TAB (a @ [TAB] @ b @ [TAB] @ c) = [a, b, c]"
  using split_on_append [of TAB a "b @ [TAB] @ c"] split_on_append [of TAB b c]
  by (simp add: split_on_plain)

lemma plain_join_append: "plain_text f \<Longrightarrow> join_append f = f"
proof -
  assume "plain_text f"
  then have "\<not> list_ex csv_special f"
    by (induction f) (simp_all add: plain_text_def csv_special_def)
  then show ?thesis by (simp add: join_append_def)
qed

lemma plain_record_text:
  "plain_text a \<Longrightarrow> plain_text b \<Longrightarrow> plain_text c \<Longrightarrow> a \<noteq> [] \<Longrightarrow>
   record_text [a, b, c] = a @ [TAB] @ b @ [TAB] @ c"
  by (simp add: record_text_def plain_join_append)

lemma plain_not_in: "plain_text s \<Longrightarrow> TAB \<notin> set s \<and> LF \<notin> set s \<and> CR \<notin> set s \<and> QUOTE \<notin> set s"
  by (induction s) (auto simp: plain_text_def)

lemma timecode_char_plain:
  "is_digit c \<or> c = CHR ''-'' \<or> c = CHR '':'' \<Longrightarrow> c \<noteq> TAB \<and> c \<noteq> LF \<and> c \<noteq> CR \<and> c \<noteq> QUOTE"
  by (auto simp: is_digit_def)

lemma is_digit_plain: "list_all (\<lambda>c. is_digit c \<or> c = CHR ''-'' \<or> c = CHR '':'') s \<Longrightarrow> plain_text s"
  unfolding plain_text_def by (induction s) (simp_all add: timecode_char_plain)

lemma parse_int_digits: "list_all is_digit s \<Longrightarrow> parse_int s = int (dec_val s)"
proof (cases s)
  case Nil
  then show ?thesis by (simp add: parse_int_def dec_val_def)
next
  case (Cons c cs)
  assume "list_all is_digit s"
  with Cons have "is_digit c" by simp
  then have "c \<noteq> CHR ''-''" by (auto simp: is_digit_def)
  with Cons show ?thesis by (simp add: parse_int_def)
qed

lemma parse_int_fmt_02d: "0 \<le> n \<Longrightarrow> parse_int (fmt_02d n) = n"
  by (simp add: parse_int_digits fmt_02d_digits fmt_02d_value)

lemma timecode_plain: "is_finite t \<Longrightarrow> plain_text (timecode t)"
  using timecode_chars by (rule is_digit_plain)

lemma parse_time_timecode:
  assumes "exact_range t"
  shows "parse_time (timecode t) = Some \<lfloor>value_of t\<rfloor>"
proof -
  from assms obtain s where t: "t = Finite s" and s: "0 \<le> s" "s < 2 ^ 53"
    by (cases t) (simp_all add: exact_range_def)
  define n where "n = \<lfloor>s\<rfloor>"
  have n0: "0 \<le> n" using s by (simp add: n_def)
  have h0: "0 \<le> n div 3600" using n0 by (simp add: pos_imp_zdiv_nonneg_iff)
  have m0: "0 \<le> n mod 3600 div 60" by (simp add: pos_imp_zdiv_nonneg_iff)
  have s0: "0 \<le> n mod 60" by simp
  have sp: "split_on CHR '':'' (fmt_02d (n div 3600) @ CHR '':'' # fmt_02d (n mod 3600 div 60) @ CHR '':'' # fmt_02d (n mod 60))
        = [fmt_02d (n div 3600), fmt_02d (n mod 3600 div 60), fmt_02d (n mod 60)]"
    by (simp add: split_on_append split_on_plain fmt_02d_no_colon)
  have ft: "timecode t = fmt_02d (n div 3600) @ CHR '':'' # fmt_02d (n mod 3600 div 60) @ CHR '':'' # fmt_02d (n mod 60)"
    using format_time_floor [OF s] by (simp add: timecode_def t n_def)
  have "parse_time (timecode t)
      = Some (parse_int (fmt_02d (n div 3600)) * 3600 + parse_int (fmt_02d (n mod 3600 div 60)) * 60
          + parse_int (fmt_02d (n mod 60)))"
    unfolding parse_time_def ft sp by simp
  also have "\<dots> = Some (n div 3600 * 3600 + n mod 3600 div 60 * 60 + n mod 60)"
    by (simp only: parse_int_fmt_02d [OF h0] parse_int_fmt_02d [OF m0] parse_int_fmt_02d [OF s0])
  also have "n div 3600 * 3600 + n mod 3600 div 60 * 60 + n mod 60 = n"
    using floor_decomp [of n] by linarith
  finally show ?thesis by (simp only: n_def t value_of.simps)
qed

lemma plain_segment_complete: "list_all plain_segment segs \<Longrightarrow> list_all complete segs"
  by (induction segs) (simp_all add: plain_segment_def)

lemma plain_segment_finite: "plain_segment seg \<Longrightarrow> finite_times seg"
  by (auto simp: plain_segment_def complete_def finite_times_def exact_range_def)

lemma plain_segment_finite_times: "list_all plain_segment segs \<Longrightarrow> list_all finite_times segs"
  by (induction segs) (simp_all add: plain_segment_finite)

lemma complete_finite_start: "complete seg \<Longrightarrow> finite_times seg \<Longrightarrow> is_finite (the (seg_start seg))"
  by (auto simp: complete_def finite_times_def)

lemma complete_finite_end: "complete seg \<Longrightarrow> finite_times seg \<Longrightarrow> is_finite (the (seg_end seg))"
  by (auto simp: complete_def finite_times_def)

lemma tsv_content_lines:
  "list_all complete segs \<Longrightarrow> list_all finite_times segs \<Longrightarrow>
   create_tsv_content segs =
     Inr (concat (map (\<lambda>r. record_text r @ [CR, LF]) ([''Start'', ''End'', ''Text''] # map tsv_row segs)))"
  by (simp add: create_tsv_content_def tsv_loop_complete foldl_writerow writerow_record_text)

lemma tsv_row_text:
  assumes "plain_segment seg"
  shows "record_text (tsv_row seg) =
     timecode (the (seg_start seg)) @ [TAB] @ timecode (the (seg_end seg)) @ [TAB] @ the (seg_text seg)"
proof -
  from assms have a: "is_finite (the (seg_start seg))" and b: "is_finite (the (seg_end seg))"
    and p: "plain_text (the (seg_text seg))"
    by (simp_all add: plain_segment_def exact_range_def)
  show ?thesis
    unfolding tsv_row_def
    using timecode_plain [OF a] timecode_plain [OF b] p timecode_nonempty [OF a]
    by (rule plain_record_text)
qed

lemma tsv_row_split: "plain_segment seg \<Longrightarrow> split_on TAB (record_text (tsv_row seg)) = tsv_row seg"
proof -
  assume t: "plain_segment seg"
  then have fa: "is_finite (the (seg_start seg))" and fb: "is_finite (the (seg_end seg))"
    by (simp_all add: plain_segment_def exact_range_def)
  from t have p: "TAB \<notin> set (the (seg_text seg))" by (simp add: plain_segment_def plain_not_in)
  have a: "TAB \<notin> set (timecode (the (seg_start seg)))"
    using plain_not_in [OF timecode_plain [OF fa]] by simp
  have b: "TAB \<notin> set (timecode (the (seg_end seg)))"
    using plain_not_in [OF timecode_plain [OF fb]] by simp
  have "split_on TAB (record_text (tsv_row seg)) =
      [timecode (the (seg_start seg)), timecode (the (seg_end seg)), the (seg_text seg)]"
    unfolding tsv_row_text [OF t] using a b p by (rule split_three)
  then show ?thesis by (simp only: tsv_row_def)
qed

lemma tsv_row_no_lf: "plain_segment seg \<Longrightarrow> LF \<notin> set (record_text (tsv_row seg))"
proof -
  assume t: "plain_segment seg"
  then have fa: "is_finite (the (seg_start seg))" and fb: "is_finite (the (seg_end seg))"
    by (simp_all add: plain_segment_def exact_range_def)
  from t have p: "LF \<notin> set (the (seg_text seg))" by (simp add: plain_segment_def plain_not_in)
  have a: "LF \<notin> set (timecode (the (seg_start seg)))"
    using plain_not_in [OF timecode_plain [OF fa]] by simp
  have b: "LF \<notin> set (timecode (the (seg_end seg)))"
    using plain_not_in [OF timecode_plain [OF fb]] by simp
  show ?thesis unfolding tsv_row_text [OF t] using a b p by simp
qed

lemma row_tuple_tsv_row:
  "plain_segment seg \<Longrightarrow>
   row_tuple (tsv_row seg) =
     Some (\<lfloor>value_of (the (seg_start seg))\<rfloor>, \<lfloor>value_of (the (seg_end seg))\<rfloor>, the (seg_text seg))"
  by (simp add: plain_segment_def tsv_row_def row_tuple_def parse_time_timecode)

lemma tuples_tsv_rows:
  "list_all plain_segment segs \<Longrightarrow>
   those (map row_tuple (map tsv_row segs))
     = Some (map (\<lambda>seg. (\<lfloor>value_of (the (seg_start seg))\<rfloor>, \<lfloor>value_of (the (seg_end seg))\<rfloor>,
                          the (seg_text seg))) segs)"
  by (induction segs) (simp_all add: row_tuple_tsv_row)

lemma tsv_rows_content:
  assumes "list_all plain_segment segs"
  shows "tsv_rows (concat (map (\<lambda>r. record_text r @ [CR, LF]) ([''Start'', ''End'', ''Text''] # map tsv_row segs)))
         = [''Start'', ''End'', ''Text''] # map tsv_row segs"
proof -
  let ?rows = "[''Start'', ''End'', ''Text''] # map tsv_row segs"
  let ?ls = "map record_text ?rows"
  have nolf: "list_all (\<lambda>l. LF \<notin> set l) ?ls"
    using assms by (simp add: header_text list_all_iff tsv_row_no_lf)
  have c: "concat (map (\<lambda>r. record_text r @ [CR, LF]) ?rows) = concat (map (\<lambda>l. l @ [CR, LF]) ?ls)"
    by (simp add: comp_def)
  have "butlast (split_on LF (concat (map (\<lambda>l. l @ [CR, LF]) ?ls))) = map (\<lambda>l. l @ [CR]) ?ls"
    using split_lines [OF nolf] by (simp only: butlast_snoc)
  then have "tsv_rows (concat (map (\<lambda>r. record_text r @ [CR, LF]) ?rows))
      = map (\<lambda>row. split_on TAB (strip_cr row)) (map (\<lambda>l. l @ [CR]) ?ls)"
    by (simp only: tsv_rows_def c)
  also have "\<dots> = map (\<lambda>r. split_on TAB (record_text r)) ?rows"
    by (simp add: strip_cr_snoc comp_def)
  also have "\<dots> = ?rows"
  proof -
    have h: "split_on TAB (record_text [''Start'', ''End'', ''Text'']) = [''Start'', ''End'', ''Text'']"
      by (simp add: header_text)
    have "map (\<lambda>r. split_on TAB (record_text r)) (map tsv_row segs) = map tsv_row segs"
      using assms by (induction segs) (simp_all add: tsv_row_split)
    with h show ?thesis by simp
  qed
  finally show ?thesis .
qed

section \<open>Properties\<close>

text \<open>
  C1.  The claim asks for start and end timecodes that carry the milliseconds of the
  segment.  The serializers do not: \<open>format_time\<close> drops the fraction (its
  \<open>milliseconds\<close> line is computed from the truncated value and never used) and the
  callers append the constant \<open>,000\<close> or \<open>.000\<close>.  For a segment from 0 to 2.5
  seconds the end timecode is rendered as \<open>00:00:02,000\<close>, and 3661.5 seconds as
  \<open>01:01:01,000\<close>.
\<close>

theorem hardcoded_milliseconds:
  "create_srt_content
     [\<lparr>seg_start = Some (Finite 0), seg_end = Some (Finite 2.5), seg_text = Some ''Hello''\<rparr>]
     = Inr (''1'' @ [LF] @ ''00:00:00,000 --> 00:00:02,000'' @ [LF] @ ''Hello'' @ [LF, LF]) \<and>
   create_vtt_content
     [\<lparr>seg_start = Some (Finite 0), seg_end = Some (Finite 2.5), seg_text = Some ''Hello''\<rparr>]
     = Inr (''WEBVTT'' @ [LF, LF] @ ''00:00:00.000 --> 00:00:02.000'' @ [LF] @ ''Hello'' @ [LF, LF]) \<and>
   format_time (Finite 3661.5) = Inr ''01:01:01'' \<and>
   timecode (Finite 3661.5) @ '',000'' = ''01:01:01,000''"
  by (simp add: create_srt_content_def create_vtt_content_def getitem_def timecode_def
      format_time_floor fmt_02d_def str_nat.simps digit_char_def)



text \<open>
  C3, as stated, fails: a segment without the key \<open>start\<close> makes each serializer
  raise the built-in \<open>KeyError\<close>, not \<open>MalformedResult\<close>.
\<close>

theorem missing_start_counterexample:
  "create_srt_content [\<lparr>seg_start = None, seg_end = Some (Finite 2), seg_text = Some ''Hi''\<rparr>]
     = Inl (KeyError ''start'') \<and>
   create_vtt_content [\<lparr>seg_start = None, seg_end = Some (Finite 2), seg_text = Some ''Hi''\<rparr>]
     = Inl (KeyError ''start'') \<and>
   create_tsv_content [\<lparr>seg_start = None, seg_end = Some (Finite 2), seg_text = Some ''Hi''\<rparr>]
     = Inl (KeyError ''start'') \<and>
   KeyError ''start'' \<noteq> MalformedResult ''start''"
  by (simp add: create_srt_content_def create_vtt_content_def create_tsv_content_def getitem_def)

text \<open>
  C3, amended.  A result without the key \<open>text\<close> makes the content of every format
  fail with \<open>KeyError\<close> of that key.  When the first segment that lacks a key comes
  after complete segments only, and the times present are finite, each of the three
  serializers fails with \<open>KeyError\<close> of the first key that this segment lacks, in the
  order start, end, text; nothing is returned and no default value takes the place of the
  missing one.
\<close>

theorem missing_field_key_error:
  "(res_text result = None \<longrightarrow> format_content fmt result = Inl (KeyError ''text'')) \<and>
   (list_all complete pre \<and> list_all finite_times pre \<and> \<not> complete seg \<and> finite_times seg \<longrightarrow>
      create_srt_content (pre @ seg # post) = Inl (KeyError (missing_key seg)) \<and>
      create_vtt_content (pre @ seg # post) = Inl (KeyError (missing_key seg)) \<and>
      create_tsv_content (pre @ seg # post) = Inl (KeyError (missing_key seg)) \<and>
      missing_key seg \<in> {''start'', ''end'', ''text''})"
  by (simp add: create_srt_content_def create_vtt_content_def create_tsv_content_def
      srt_loop_missing vtt_loop_missing tsv_loop_missing getitem_None missing_key_def
      format_content_def)

theorem missing_field_key_error_witness:
  "res_text \<lparr>res_text = None, res_segments = Some []\<rparr> = None \<and>
   format_content Txt \<lparr>res_text = None, res_segments = Some []\<rparr> = Inl (KeyError ''text'') \<and>
   format_content Srt \<lparr>res_text = None, res_segments = Some []\<rparr> = Inl (KeyError ''text'') \<and>
   list_all complete [\<lparr>seg_start = Some (Finite 0), seg_end = Some (Finite 1), seg_text = Some ''a''\<rparr>] \<and>
   list_all finite_times [\<lparr>seg_start = Some (Finite 0), seg_end = Some (Finite 1), seg_text = Some ''a''\<rparr>] \<and>
   \<not> complete \<lparr>seg_start = Some (Finite 1), seg_end = None, seg_text = Some ''b''\<rparr> \<and>
   finite_times \<lparr>seg_start = Some (Finite 1), seg_end = None, seg_text = Some ''b''\<rparr> \<and>
   create_tsv_content
     ([\<lparr>seg_start = Some (Finite 0), seg_end = Some (Finite 1), seg_text = Some ''a''\<rparr>] @
      \<lparr>seg_start = Some (Finite 1), seg_end = None, seg_text = Some ''b''\<rparr> #
      [\<lparr>seg_start = None, seg_end = None, seg_text = None\<rparr>]) = Inl (KeyError ''end'')"
  using missing_field_key_error [of "\<lparr>res_text = None, res_segments = Some []\<rparr>" Txt
      "[\<lparr>seg_start = Some (Finite 0), seg_end = Some (Finite 1), seg_text = Some ''a''\<rparr>]"
      "\<lparr>seg_start = Some (Finite 1), seg_end = None, seg_text = Some ''b''\<rparr>"
      "[\<lparr>seg_start = None, seg_end = None, seg_text = None\<rparr>]"]
    missing_field_key_error [of "\<lparr>res_text = None, res_segments = Some []\<rparr>" Srt]
  by (simp add: complete_def finite_times_def missing_key_def)

text \<open>
  C4, as stated, fails: the text \<open>say "hi"\<close> holds no tab and no newline, yet the
  writer encloses it in quotes and doubles the quotes inside, so that splitting on newlines
  and tabs does not give the text back, with or without the carriage return of the row
  terminator.
\<close>

theorem tsv_naive_roundtrip_counterexample:
  "TAB \<notin> set (''say '' @ [QUOTE] @ ''hi'' @ [QUOTE]) \<and>
   LF \<notin> set (''say '' @ [QUOTE] @ ''hi'' @ [QUOTE]) \<and>
   create_tsv_content
     [\<lparr>seg_start = Some (Finite 0), seg_end = Some (Finite 2),
       seg_text = Some (''say '' @ [QUOTE] @ ''hi'' @ [QUOTE])\<rparr>]
     = Inr (''Start'' @ [TAB] @ ''End'' @ [TAB] @ ''Text'' @ [CR, LF] @
            ''00:00:00'' @ [TAB] @ ''00:00:02'' @ [TAB] @
            [QUOTE] @ ''say '' @ [QUOTE, QUOTE] @ ''hi'' @ [QUOTE, QUOTE] @ [QUOTE] @ [CR, LF]) \<and>
   tuples_of (tsv_rows
           (''Start'' @ [TAB] @ ''End'' @ [TAB] @ ''Text'' @ [CR, LF] @
            ''00:00:00'' @ [TAB] @ ''00:00:02'' @ [TAB] @
            [QUOTE] @ ''say '' @ [QUOTE, QUOTE] @ ''hi'' @ [QUOTE, QUOTE] @ [QUOTE] @ [CR, LF]))
     \<noteq> Some [(0, 2, ''say '' @ [QUOTE] @ ''hi'' @ [QUOTE])] \<and>
   tuples_of (tsv_rows_lf
           (''Start'' @ [TAB] @ ''End'' @ [TAB] @ ''Text'' @ [CR, LF] @
            ''00:00:00'' @ [TAB] @ ''00:00:02'' @ [TAB] @
            [QUOTE] @ ''say '' @ [QUOTE, QUOTE] @ ''hi'' @ [QUOTE, QUOTE] @ [QUOTE] @ [CR, LF]))
     \<noteq> Some [(0, 2, ''say '' @ [QUOTE] @ ''hi'' @ [QUOTE])]"
  by code_simp

text \<open>
  C4, amended.  For every list of plain segments (the three keys present, times that are
  finite, not negative and below \<open>2 ^ 53\<close> seconds, a text without tab, line feed,
  carriage return and double quote), splitting the TSV content into rows at the row
  terminators CR LF and each row on tabs gives the header row and, for each segment in
  order, its two timecodes and its text; read as numbers, the rows give back the tuples of
  whole seconds of start and end, and the text.
\<close>

theorem tsv_naive_roundtrip:
  assumes "list_all plain_segment segs"
  shows "\<exists>out. create_tsv_content segs = Inr out \<and>
     tsv_rows out = [''Start'', ''End'', ''Text''] # map tsv_row segs \<and>
     tuples_of (tsv_rows out) =
       Some (map (\<lambda>seg. (\<lfloor>value_of (the (seg_start seg))\<rfloor>, \<lfloor>value_of (the (seg_end seg))\<rfloor>,
                          the (seg_text seg))) segs)"
proof -
  let ?out = "concat (map (\<lambda>r. record_text r @ [CR, LF]) ([''Start'', ''End'', ''Text''] # map tsv_row segs))"
  have c: "create_tsv_content segs = Inr ?out"
    using plain_segment_complete [OF assms] plain_segment_finite_times [OF assms]
    by (rule tsv_content_lines)
  have r: "tsv_rows ?out = [''Start'', ''End'', ''Text''] # map tsv_row segs"
    using assms by (rule tsv_rows_content)
  have t: "tuples_of (tsv_rows ?out) =
       Some (map (\<lambda>seg. (\<lfloor>value_of (the (seg_start seg))\<rfloor>, \<lfloor>value_of (the (seg_end seg))\<rfloor>,
                          the (seg_text seg))) segs)"
    unfolding r tuples_of_def using tuples_tsv_rows [OF assms] by simp
  from c r t show ?thesis by blast
qed

theorem tsv_naive_roundtrip_witness:
  "list_all plain_segment
     [\<lparr>seg_start = Some (Finite 0), seg_end = Some (Finite 2.5), seg_text = Some '' Hello''\<rparr>,
      \<lparr>seg_start = Some (Finite 3661.5), seg_end = Some (Finite 3670), seg_text = Some '' world''\<rparr>] \<and>
   (\<exists>out. create_tsv_content
     [\<lparr>seg_start = Some (Finite 0), seg_end = Some (Finite 2.5), seg_text = Some '' Hello''\<rparr>,
      \<lparr>seg_start = Some (Finite 3661.5), seg_end = Some (Finite 3670), seg_text = Some '' world''\<rparr>] = Inr out \<and>
     tuples_of (tsv_rows out) = Some [(0, 2, '' Hello''), (3661, 3670, '' world'')])"
proof -
  have t: "list_all plain_segment
     [\<lparr>seg_start = Some (Finite 0), seg_end = Some (Finite 2.5), seg_text = Some '' Hello''\<rparr>,
      \<lparr>seg_start = Some (Finite 3661.5), seg_end = Some (Finite 3670), seg_text = Some '' world''\<rparr>]"
    by (simp add: plain_segment_def complete_def plain_text_def exact_range_def)
  show ?thesis using t tsv_naive_roundtrip [OF t] by auto
qed

text \<open>
  C5, as stated, fails: a tab or a newline in a text is written as it is, inside a quoted
  field.  For one segment with the text \<open>a<TAB>b<LF>c\<close>, splitting on newlines and tabs
  gives two rows after the header, of four fields and of one.
\<close>

theorem tsv_raw_tab_counterexample:
  "create_tsv_content
     [\<lparr>seg_start = Some (Finite 0), seg_end = Some (Finite 1),
       seg_text = Some (''a'' @ [TAB] @ ''b'' @ [LF] @ ''c'')\<rparr>]
     = Inr (''Start'' @ [TAB] @ ''End'' @ [TAB] @ ''Text'' @ [CR, LF] @
            ''00:00:00'' @ [TAB] @ ''00:00:01'' @ [TAB] @
            [QUOTE] @ ''a'' @ [TAB] @ ''b'' @ [LF] @ ''c'' @ [QUOTE] @ [CR, LF]) \<and>
   map length (tsv_rows
           (''Start'' @ [TAB] @ ''End'' @ [TAB] @ ''Text'' @ [CR, LF] @
            ''00:00:00'' @ [TAB] @ ''00:00:01'' @ [TAB] @
            [QUOTE] @ ''a'' @ [TAB] @ ''b'' @ [LF] @ ''c'' @ [QUOTE] @ [CR, LF])) = [3, 4, 1]"
  by code_simp

text \<open>
  C5, amended.  For every list of complete segments with finite times the TSV content is
  the header row \<open>Start<TAB>End<TAB>Text\<close> followed by one row per segment, each of three
  fields separated by single tabs and ended by CR LF.  The text field is written by
  \<open>join_append\<close>: enclosed in double quotes, with each double quote inside doubled,
  when it holds a tab, a line feed, a carriage return or a double quote, and as it is
  otherwise.  A quote-aware reader recovers from the content exactly the header and one
  row of three fields per segment, with the original text, whatever characters it holds.
\<close>

theorem tsv_quoted_structure:
  assumes "list_all complete segs" and "list_all finite_times segs"
  shows "\<exists>out. create_tsv_content segs = Inr out \<and>
     out = ''Start'' @ [TAB] @ ''End'' @ [TAB] @ ''Text'' @ [CR, LF] @
           concat (map (\<lambda>seg. timecode (the (seg_start seg)) @ [TAB] @
                               timecode (the (seg_end seg)) @ [TAB] @
                               join_append (the (seg_text seg)) @ [CR, LF]) segs) \<and>
     csv_reader out = [''Start'', ''End'', ''Text''] # map tsv_row segs \<and>
     length (csv_reader out) = Suc (length segs) \<and>
     list_all (\<lambda>row. length row = 3) (csv_reader out)"
proof -
  let ?rows = "[''Start'', ''End'', ''Text''] # map tsv_row segs"
  define out where "out = foldl writerow [] ?rows"
  have c: "create_tsv_content segs = Inr out"
    using assms by (simp add: out_def create_tsv_content_def tsv_loop_complete)
  have ne: "list_all (\<lambda>r. r \<noteq> []) ?rows"
    by (simp add: list_all_iff tsv_row_def)
  have rd: "csv_reader out = ?rows" unfolding out_def using ne by (rule csv_reader_writerows)
  have line: "record_text (tsv_row seg) @ [CR, LF] =
      timecode (the (seg_start seg)) @ [TAB] @ timecode (the (seg_end seg)) @ [TAB] @
      join_append (the (seg_text seg)) @ [CR, LF]" if "seg \<in> set segs" for seg
  proof -
    from that assms have "complete seg" "finite_times seg" by (simp_all add: list_all_iff)
    then have "is_finite (the (seg_start seg))" "is_finite (the (seg_end seg))"
      by (simp_all add: complete_finite_start complete_finite_end)
    then show ?thesis
      by (simp add: tsv_row_def record_text_three plain_join_append timecode_plain)
  qed
  have "concat (map (\<lambda>seg. record_text (tsv_row seg) @ [CR, LF]) segs) =
      concat (map (\<lambda>seg. timecode (the (seg_start seg)) @ [TAB] @
                               timecode (the (seg_end seg)) @ [TAB] @
                               join_append (the (seg_text seg)) @ [CR, LF]) segs)"
    using line by (intro arg_cong [where f = concat] map_cong) simp_all
  then have shape: "out = ''Start'' @ [TAB] @ ''End'' @ [TAB] @ ''Text'' @ [CR, LF] @
           concat (map (\<lambda>seg. timecode (the (seg_start seg)) @ [TAB] @
                               timecode (the (seg_end seg)) @ [TAB] @
                               join_append (the (seg_text seg)) @ [CR, LF]) segs)"
    unfolding out_def foldl_writerow by (simp add: header_text comp_def)
  have three: "list_all (\<lambda>row. length row = 3) (csv_reader out)"
    unfolding rd by (simp add: list_all_iff tsv_row_def)
  have len: "length (csv_reader out) = Suc (length segs)"
    unfolding rd by simp
  from c shape rd three len show ?thesis by blast
qed

theorem tsv_quoted_structure_witness:
  "list_all complete
     [\<lparr>seg_start = Some (Finite 0), seg_end = Some (Finite 1),
       seg_text = Some (''a'' @ [TAB] @ ''b'' @ [LF] @ [QUOTE] @ ''c'')\<rparr>] \<and>
   list_all finite_times
     [\<lparr>seg_start = Some (Finite 0), seg_end = Some (Finite 1),
       seg_text = Some (''a'' @ [TAB] @ ''b'' @ [LF] @ [QUOTE] @ ''c'')\<rparr>] \<and>
   (\<exists>out. create_tsv_content
     [\<lparr>seg_start = Some (Finite 0), seg_end = Some (Finite 1),
       seg_text = Some (''a'' @ [TAB] @ ''b'' @ [LF] @ [QUOTE] @ ''c'')\<rparr>] = Inr out \<and>
     csv_reader out = [[''Start'', ''End'', ''Text''],
                       [''00:00:00'', ''00:00:01'', ''a'' @ [TAB] @ ''b'' @ [LF] @ [QUOTE] @ ''c'']])"
proof -
  have c: "list_all complete
     [\<lparr>seg_start = Some (Finite 0), seg_end = Some (Finite 1),
       seg_text = Some (''a'' @ [TAB] @ ''b'' @ [LF] @ [QUOTE] @ ''c'')\<rparr>]"
    by (simp add: complete_def)
  have d: "list_all finite_times
     [\<lparr>seg_start = Some (Finite 0), seg_end = Some (Finite 1),
       seg_text = Some (''a'' @ [TAB] @ ''b'' @ [LF] @ [QUOTE] @ ''c'')\<rparr>]"
    by (simp add: finite_times_def)
  have f: "timecode (Finite 0) = ''00:00:00''" "timecode (Finite 1) = ''00:00:01''"
    by (simp_all add: timecode_def format_time_floor fmt_02d_def str_nat.simps digit_char_def)
  show ?thesis using c d tsv_quoted_structure [OF c d] by (auto simp: tsv_row_def f)
qed






text \<open>
  C8, as stated, fails for large and for infinite values.  The float \<open>10 ^ 22\<close> is
  rendered with the hours field 2777777777777777664, while the number of whole hours in
  \<open>10 ^ 22\<close> seconds is 2777777777777777777: the quotient is rounded to a float.  For
  the float infinity \<open>format_time\<close> raises \<open>ValueError\<close>.
\<close>

theorem format_time_large_counterexample:
  "format_time (Finite (10 ^ 22)) = Inr ''2777777777777777664:46:40'' \<and>
   \<lfloor>(10 ^ 22 :: real) / 3600\<rfloor> = 2777777777777777777 \<and>
   format_time PosInf = Inl ValueError"
proof -
  have a: "float_div_mod (10 ^ 22) 3600 = (2777777777777777664, 2800)" by code_simp
  have b: "float_rem (10 ^ 22) 60 = 40" by code_simp
  have b2: "float_rem (10 ^ 22) 3600 = 2800" by code_simp
  have b3: "float_div_mod 2800 60 = (46, 40)" by code_simp
  from a b b2 b3 have "format_time (Finite (10 ^ 22)) = Inr ''2777777777777777664:46:40''"
    by (simp add: format_time_def py_trunc_def fmt_02d_def str_nat.simps digit_char_def)
  moreover have "\<lfloor>(10 ^ 22 :: real) / 3600\<rfloor> = 2777777777777777777" by simp
  moreover have "format_time PosInf = Inl ValueError" by (simp add: format_time_def)
  ultimately show ?thesis by blast
qed

text \<open>
  C8, amended.  For a finite \<open>s\<close> that is not negative and below \<open>2 ^ 53\<close> seconds,
  \<open>format_time s\<close> is three fields of decimal digits separated by colons.  The hours
  field has at least two digits and denotes the whole number of hours; it has more than
  two digits exactly when \<open>s\<close> is 100 hours or more.  The minutes and seconds fields
  have two digits and denote values below 60.  The fraction of \<open>s\<close> has no effect, and
  \<open>format_time 0\<close> is \<open>00:00:00\<close>.
\<close>

theorem format_time_nonneg:
  assumes "0 \<le> s" and "s < 2 ^ 53"
  shows "(\<exists>hh mm ss. format_time (Finite s) = Inr (hh @ '':'' @ mm @ '':'' @ ss)
      \<and> list_all is_digit hh \<and> list_all is_digit mm \<and> list_all is_digit ss
      \<and> 2 \<le> length hh \<and> (2 < length hh \<longleftrightarrow> 360000 \<le> s)
      \<and> length mm = 2 \<and> length ss = 2
      \<and> int (dec_val hh) = \<lfloor>s\<rfloor> div 3600
      \<and> int (dec_val mm) = \<lfloor>s\<rfloor> div 60 mod 60 \<and> dec_val mm < 60
      \<and> int (dec_val ss) = \<lfloor>s\<rfloor> mod 60 \<and> dec_val ss < 60)
    \<and> format_time (Finite s) = format_time (Finite (of_int \<lfloor>s\<rfloor>))
    \<and> format_time (Finite 0) = Inr ''00:00:00''"
proof -
  define n where "n = \<lfloor>s\<rfloor>"
  have n0: "0 \<le> n" using assms by (simp add: n_def)
  have fl: "0 \<le> real_of_int \<lfloor>s\<rfloor>" "real_of_int \<lfloor>s\<rfloor> < 2 ^ 53"
    using assms of_int_floor_le [of s] by simp_all
  have h0: "0 \<le> n div 3600" using n0 by (simp add: pos_imp_zdiv_nonneg_iff)
  have m0: "0 \<le> n mod 3600 div 60" by (simp add: pos_imp_zdiv_nonneg_iff)
  have m1: "n mod 3600 div 60 < 60" by (rule min_bound)
  have meq: "n mod 3600 div 60 = n div 60 mod 60" by (rule min_eq)
  have s0: "0 \<le> n mod 60" by simp
  have s1: "n mod 60 < 60" by simp
  have big: "(2 < length (fmt_02d (n div 3600))) \<longleftrightarrow> 360000 \<le> s"
  proof (cases "n div 3600 < 100")
    case True
    then have "n < 360000" by (simp only: div3600_small)
    then have "s < 360000" by (simp add: n_def floor_less_iff)
    with True h0 show ?thesis by (simp add: fmt_02d_length_small)
  next
    case False
    then have "360000 \<le> n" by (simp only: div3600_small not_less)
    then have "360000 \<le> s" by (simp add: n_def le_floor_iff)
    with False show ?thesis using fmt_02d_length_large [of "n div 3600"] by simp
  qed
  have two: "2 \<le> length (fmt_02d (n div 3600))"
    using h0 fmt_02d_length_small [of "n div 3600"] fmt_02d_length_large [of "n div 3600"]
    by (cases "n div 3600 < 100") simp_all
  have vm: "int (dec_val (fmt_02d (n mod 3600 div 60))) = n mod 3600 div 60"
    using m0 by (rule fmt_02d_value)
  have vs: "int (dec_val (fmt_02d (n mod 60))) = n mod 60"
    using s0 by (rule fmt_02d_value)
  have "format_time (Finite s) = Inr (fmt_02d (n div 3600) @ '':'' @ fmt_02d (n mod 3600 div 60) @ '':'' @ fmt_02d (n mod 60))"
    using format_time_floor [OF assms] by (simp add: n_def)
  moreover have "list_all is_digit (fmt_02d (n div 3600))" using h0 by (rule fmt_02d_digits)
  moreover have "list_all is_digit (fmt_02d (n mod 3600 div 60))" using m0 by (rule fmt_02d_digits)
  moreover have "list_all is_digit (fmt_02d (n mod 60))" using s0 by (rule fmt_02d_digits)
  moreover have "length (fmt_02d (n mod 3600 div 60)) = 2" using m0 m1 by (simp add: fmt_02d_length_small)
  moreover have "length (fmt_02d (n mod 60)) = 2" using s0 s1 by (simp add: fmt_02d_length_small)
  moreover have "int (dec_val (fmt_02d (n div 3600))) = n div 3600" using h0 by (rule fmt_02d_value)
  moreover have "int (dec_val (fmt_02d (n mod 3600 div 60))) = n div 60 mod 60" using vm meq by simp
  moreover have "dec_val (fmt_02d (n mod 3600 div 60)) < 60" using vm m1 by linarith
  moreover have "dec_val (fmt_02d (n mod 60)) < 60" using vs s1 by linarith
  ultimately have ex: "\<exists>hh mm ss. format_time (Finite s) = Inr (hh @ '':'' @ mm @ '':'' @ ss)
      \<and> list_all is_digit hh \<and> list_all is_digit mm \<and> list_all is_digit ss
      \<and> 2 \<le> length hh \<and> (2 < length hh \<longleftrightarrow> 360000 \<le> s)
      \<and> length mm = 2 \<and> length ss = 2
      \<and> int (dec_val hh) = \<lfloor>s\<rfloor> div 3600
      \<and> int (dec_val mm) = \<lfloor>s\<rfloor> div 60 mod 60 \<and> dec_val mm < 60
      \<and> int (dec_val ss) = \<lfloor>s\<rfloor> mod 60 \<and> dec_val ss < 60"
    using two big vs unfolding n_def by blast
  have trunc: "format_time (Finite s) = format_time (Finite (of_int \<lfloor>s\<rfloor>))"
    using format_time_floor [OF assms] format_time_floor [OF fl] by simp
  have zero: "format_time (Finite 0) = Inr ''00:00:00''"
    by (simp add: format_time_floor fmt_02d_def str_nat.simps digit_char_def)
  from ex trunc zero show ?thesis by blast
qed

theorem format_time_nonneg_witness:
  "(0::real) \<le> 3661.5 \<and> (3661.5::real) < 2 ^ 53 \<and>
   format_time (Finite 3661.5) = Inr ''01:01:01'' \<and>
   format_time (Finite 3661.5) = format_time (Finite 3661) \<and>
   format_time (Finite 360000) = Inr ''100:00:00''"
  using format_time_nonneg [of "3661.5"]
  by (simp add: format_time_floor fmt_02d_def str_nat.simps digit_char_def)

text \<open>
  C9.  With an empty segment list no serializer raises: the SRT content is the empty
  string, the VTT content is the header line \<open>WEBVTT\<close> and one blank line, and the TSV
  content is the header row alone (ended by the writer's line terminator CR LF).
\<close>

theorem empty_segments_ok:
  "create_srt_content [] = Inr '''' \<and>
   create_vtt_content [] = Inr (''WEBVTT'' @ [LF, LF]) \<and>
   create_tsv_content [] = Inr (''Start'' @ [TAB] @ ''End'' @ [TAB] @ ''Text'' @ [CR, LF])"
  by (simp add: create_srt_content_def create_vtt_content_def create_tsv_content_def
      writerow_def join_append_def csv_special_def)

text \<open>
  C10, as stated, fails: a start that is the float not-a-number is a numeric value, and
  each of the three serializers raises \<open>ValueError\<close> for the segment; so do they for an
  infinite start.
\<close>

theorem not_finite_counterexample:
  "create_srt_content [\<lparr>seg_start = Some NaN, seg_end = Some (Finite 1), seg_text = Some ''x''\<rparr>]
     = Inl ValueError \<and>
   create_vtt_content [\<lparr>seg_start = Some NaN, seg_end = Some (Finite 1), seg_text = Some ''x''\<rparr>]
     = Inl ValueError \<and>
   create_tsv_content [\<lparr>seg_start = Some NaN, seg_end = Some (Finite 1), seg_text = Some ''x''\<rparr>]
     = Inl ValueError \<and>
   create_srt_content [\<lparr>seg_start = Some PosInf, seg_end = Some (Finite 1), seg_text = Some ''x''\<rparr>]
     = Inl ValueError"
  by (simp add: create_srt_content_def create_vtt_content_def create_tsv_content_def
      getitem_def format_time_def)

text \<open>
  C10, amended.  For every list of segments that have the three keys and finite start and
  end, whatever these numbers are (an end before its start, a negative start, starts in any
  order), each of the three serializers returns a string.
\<close>

theorem serializers_total:
  "list_all complete segs \<Longrightarrow> list_all finite_times segs \<Longrightarrow>
   (\<exists>srt. create_srt_content segs = Inr srt) \<and>
   (\<exists>vtt. create_vtt_content segs = Inr vtt) \<and>
   (\<exists>tsv. create_tsv_content segs = Inr tsv)"
  by (simp add: create_srt_content_def create_vtt_content_def create_tsv_content_def
      srt_loop_complete vtt_loop_complete tsv_loop_complete)

theorem serializers_total_witness:
  "list_all complete
     [\<lparr>seg_start = Some (Finite 5), seg_end = Some (Finite 2), seg_text = Some ''late''\<rparr>,
      \<lparr>seg_start = Some (Finite (- 3)), seg_end = Some (Finite 1), seg_text = Some ''early''\<rparr>] \<and>
   list_all finite_times
     [\<lparr>seg_start = Some (Finite 5), seg_end = Some (Finite 2), seg_text = Some ''late''\<rparr>,
      \<lparr>seg_start = Some (Finite (- 3)), seg_end = Some (Finite 1), seg_text = Some ''early''\<rparr>] \<and>
   (\<exists>srt. create_srt_content
     [\<lparr>seg_start = Some (Finite 5), seg_end = Some (Finite 2), seg_text = Some ''late''\<rparr>,
      \<lparr>seg_start = Some (Finite (- 3)), seg_end = Some (Finite 1), seg_text = Some ''early''\<rparr>] = Inr srt) \<and>
   (\<exists>vtt. create_vtt_content
     [\<lparr>seg_start = Some (Finite 5), seg_end = Some (Finite 2), seg_text = Some ''late''\<rparr>,
      \<lparr>seg_start = Some (Finite (- 3)), seg_end = Some (Finite 1), seg_text = Some ''early''\<rparr>] = Inr vtt) \<and>
   (\<exists>tsv. create_tsv_content
     [\<lparr>seg_start = Some (Finite 5), seg_end = Some (Finite 2), seg_text = Some ''late''\<rparr>,
      \<lparr>seg_start = Some (Finite (- 3)), seg_end = Some (Finite 1), seg_text = Some ''early''\<rparr>] = Inr tsv)"
  using serializers_total [of
     "[\<lparr>seg_start = Some (Finite 5), seg_end = Some (Finite 2), seg_text = Some ''late''\<rparr>,
      \<lparr>seg_start = Some (Finite (- 3)), seg_end = Some (Finite 1), seg_text = Some ''early''\<rparr>]"]
  by (simp add: complete_def finite_times_def)

end
